theory Spec2Isabelle
  imports Complex_Main
begin

section \<open>C integers\<close>

text \<open>
  The aggregator of carbon-c-relay (\<^verbatim>\<open>aggregator.c\<close>) computes with \<^verbatim>\<open>int\<close>,
  \<^verbatim>\<open>unsigned int\<close>, \<^verbatim>\<open>long long\<close>, \<^verbatim>\<open>time_t\<close> and \<^verbatim>\<open>size_t\<close>. A value of a C
  integer type is modelled as a HOL integer together with the type it has in the
  source; conversions and overflow are written out. The data model is LP64: \<^verbatim>\<open>int\<close>
  has 32 bits, \<^verbatim>\<open>long\<close>, \<^verbatim>\<open>long long\<close>, \<^verbatim>\<open>time_t\<close> and \<^verbatim>\<open>size_t\<close> have 64.
\<close>

record inttype =
  is_signed :: bool
  bits :: nat

definition c_uchar :: inttype where
  "c_uchar = \<lparr>is_signed = False, bits = 8\<rparr>"

definition c_ushort :: inttype where
  "c_ushort = \<lparr>is_signed = False, bits = 16\<rparr>"

definition c_int :: inttype where
  "c_int = \<lparr>is_signed = True, bits = 32\<rparr>"

definition c_uint :: inttype where
  "c_uint = \<lparr>is_signed = False, bits = 32\<rparr>"

definition c_llong :: inttype where
  \<comment> \<open>\<^verbatim>\<open>long long\<close>, and \<^verbatim>\<open>long\<close> and \<^verbatim>\<open>time_t\<close> under LP64\<close>
  "c_llong = \<lparr>is_signed = True, bits = 64\<rparr>"

definition c_size :: inttype where
  "c_size = \<lparr>is_signed = False, bits = 64\<rparr>"

definition in_range :: "inttype \<Rightarrow> int \<Rightarrow> bool" where
  "in_range t x =
     (if is_signed t then - (2 ^ (bits t - 1)) \<le> x \<and> x < 2 ^ (bits t - 1)
      else 0 \<le> x \<and> x < 2 ^ bits t)"

definition conv :: "inttype \<Rightarrow> int \<Rightarrow> int" where
  \<comment> \<open>conversion to type \<open>t\<close>: reduction modulo \<open>2 ^ bits t\<close> into the range of \<open>t\<close>
     (for a signed \<open>t\<close> the result is implementation-defined in C; this is what gcc
     and clang define)\<close>
  "conv t x =
     (if is_signed t then (x + 2 ^ (bits t - 1)) mod 2 ^ bits t - 2 ^ (bits t - 1)
      else x mod 2 ^ bits t)"

definition promote :: "inttype \<Rightarrow> inttype" where
  \<comment> \<open>the integer promotions: every type narrower than \<^verbatim>\<open>int\<close> becomes \<^verbatim>\<open>int\<close>\<close>
  "promote t = (if bits t < 32 then c_int else t)"

definition common :: "inttype \<Rightarrow> inttype \<Rightarrow> inttype" where
  \<comment> \<open>the usual arithmetic conversions of a binary operator\<close>
  "common a b =
     (let a' = promote a; b' = promote b in
      if is_signed a' = is_signed b' then (if bits a' < bits b' then b' else a')
      else
        let u = (if is_signed a' then b' else a');
            s = (if is_signed a' then a' else b')
        in if bits s \<le> bits u then u else s)"

datatype error = DivByZero | SignedOverflow | OutOfBounds | OutOfMemory

definition c_result :: "inttype \<Rightarrow> int \<Rightarrow> error + int" where
  \<comment> \<open>the value of an arithmetic expression of type \<open>t\<close> whose mathematical result is
     \<open>r\<close>: unsigned arithmetic wraps, signed overflow is undefined behaviour\<close>
  "c_result t r =
     (if is_signed t then (if in_range t r then Inr r else Inl SignedOverflow)
      else Inr (r mod 2 ^ bits t))"

definition c_add :: "inttype \<Rightarrow> int \<Rightarrow> inttype \<Rightarrow> int \<Rightarrow> error + int" where
  "c_add ta a tb b = (let t = common ta tb in c_result t (conv t a + conv t b))"

definition c_sub :: "inttype \<Rightarrow> int \<Rightarrow> inttype \<Rightarrow> int \<Rightarrow> error + int" where
  "c_sub ta a tb b = (let t = common ta tb in c_result t (conv t a - conv t b))"

definition c_mul :: "inttype \<Rightarrow> int \<Rightarrow> inttype \<Rightarrow> int \<Rightarrow> error + int" where
  "c_mul ta a tb b = (let t = common ta tb in c_result t (conv t a * conv t b))"

definition trunc_div :: "int \<Rightarrow> int \<Rightarrow> int" where
  \<comment> \<open>C division truncates towards zero\<close>
  "trunc_div a b = sgn a * sgn b * (\<bar>a\<bar> div \<bar>b\<bar>)"

definition c_div :: "inttype \<Rightarrow> int \<Rightarrow> inttype \<Rightarrow> int \<Rightarrow> error + int" where
  "c_div ta a tb b =
     (let t = common ta tb; y = conv t b in
      if y = 0 then Inl DivByZero else c_result t (trunc_div (conv t a) y))"

definition c_less :: "inttype \<Rightarrow> int \<Rightarrow> inttype \<Rightarrow> int \<Rightarrow> bool" where
  "c_less ta a tb b = (let t = common ta tb in conv t a < conv t b)"

definition incr_size :: "int \<Rightarrow> int" where
  \<comment> \<open>\<^verbatim>\<open>x++\<close> on a \<^verbatim>\<open>size_t\<close>\<close>
  "incr_size x = (x + 1) mod 2 ^ 64"

definition nth_chk :: "'a list \<Rightarrow> int \<Rightarrow> error + 'a" where
  \<comment> \<open>\<^verbatim>\<open>xs[i]\<close> on an array of \<open>length xs\<close> cells\<close>
  "nth_chk xs i = (if 0 \<le> i \<and> i < int (length xs) then Inr (xs ! nat i) else Inl OutOfBounds)"

section \<open>The C library on strings\<close>

text \<open>
  A C string is the list of its characters before the terminating NUL. A pointer into
  a string is the suffix it points at.
\<close>

fun strchr :: "string \<Rightarrow> char \<Rightarrow> string option" where
  "strchr [] c = None"
| "strchr (x # xs) c = (if x = c then Some (x # xs) else strchr xs c)"

definition isspace :: "char \<Rightarrow> bool" where
  "isspace c = (c \<in> set [CHR '' '', CHR 0x09, CHR 0x0A, CHR 0x0B, CHR 0x0C, CHR 0x0D])"

definition isdigit :: "char \<Rightarrow> bool" where
  "isdigit c = (48 \<le> (of_char c :: nat) \<and> (of_char c :: nat) \<le> 57)"

fun digits :: "int \<Rightarrow> string \<Rightarrow> int" where
  "digits acc [] = acc"
| "digits acc (c # cs) =
     (if isdigit c then digits (acc * 10 + (of_char c - 48)) cs else acc)"

definition saturate :: "int \<Rightarrow> int" where
  "saturate x = (if x < - (2 ^ 63) then - (2 ^ 63) else if 2 ^ 63 \<le> x then 2 ^ 63 - 1 else x)"

definition atoll :: "string \<Rightarrow> int" where
  \<comment> \<open>\<^verbatim>\<open>strtoll(s, NULL, 10)\<close>: leading white space, an optional sign, decimal digits;
     a value out of range is clamped to \<^verbatim>\<open>LLONG_MIN\<close> or \<^verbatim>\<open>LLONG_MAX\<close>\<close>
  "atoll s =
     (case dropWhile isspace s of
        [] \<Rightarrow> 0
      | c # cs \<Rightarrow>
          if c = CHR ''-'' then saturate (- digits 0 cs)
          else if c = CHR ''+'' then saturate (digits 0 cs)
          else saturate (digits 0 (c # cs)))"

section \<open>The data model\<close>

text \<open>
  The structures are declared in \<^verbatim>\<open>aggregator.h\<close>; this development covers
  \<^verbatim>\<open>aggregator.c\<close> and takes the fields as that file uses them. A bucket's
  \<^verbatim>\<open>start\<close> is printed with \<^verbatim>\<open>%lld\<close> (a \<^verbatim>\<open>long long\<close>), its \<^verbatim>\<open>cnt\<close> with
  \<^verbatim>\<open>%zd\<close> (a \<^verbatim>\<open>size_t\<close>); \<^verbatim>\<open>sum\<close>,
  \<^verbatim>\<open>max\<close> and \<^verbatim>\<open>min\<close> hold the \<^verbatim>\<open>double\<close> read by \<^verbatim>\<open>atof\<close>. The three counters are
  summed into \<^verbatim>\<open>size_t\<close> totals.

  Floating point is kept abstract: the type \<open>'v\<close> of sample values carries only the
  operations the code applies to a \<^verbatim>\<open>double\<close> (\<open>+\<close>, \<open><\<close>, \<open>/\<close>), and \<^verbatim>\<open>atof\<close> and the
  conversion \<^verbatim>\<open>(double)b->cnt\<close> are parameters. Nothing is assumed about them unless a
  theorem says so. The type \<open>double\<close> defined further down is one such type of values,
  with the arithmetic of IEEE 754.
\<close>

datatype compute_type = SUM_c | CNT_c | MAX_c | MIN_c | AVG_c

record compute =
  type_c :: compute_type
  metric_c :: string

record 'v bucket =
  start :: int
  cnt :: int
  sum_f :: 'v
  max_f :: 'v
  min_f :: 'v

record 'v aggregator =
  interval :: int
  expire :: int
  bucketcnt :: int
  received :: int
  sent :: int
  dropped :: int
  buckets :: "'v bucket list"
  computes :: "compute list"

text \<open>
  The integer types that \<^verbatim>\<open>aggregator.h\<close> gives to the fields \<^verbatim>\<open>interval\<close>,
  \<^verbatim>\<open>expire\<close> and \<^verbatim>\<open>bucketcnt\<close> decide how \<^verbatim>\<open>aggregator.c\<close> converts and compares
  them. They are a parameter of every function below.
\<close>

record layout =
  interval_t :: inttype
  expire_t :: inttype
  bucketcnt_t :: inttype

text \<open>
  What \<^verbatim>\<open>aggregator_new\<close> takes from its environment: whether \<^verbatim>\<open>malloc\<close> returns a
  block for the aggregator, the clock, and the contents of the memory \<^verbatim>\<open>malloc\<close>
  hands out, which the constructor leaves as they are in the fields it does not
  assign (\<^verbatim>\<open>computes\<close>, and \<^verbatim>\<open>sum\<close>, \<^verbatim>\<open>max\<close>, \<^verbatim>\<open>min\<close> of every bucket).
\<close>

record 'v new_env =
  malloc_ok :: bool
  time_now :: int
  mem_computes :: "compute list"
  mem_bucket :: "nat \<Rightarrow> 'v bucket"

text \<open>One \<^verbatim>\<open>fprintf(metricsock, ...)\<close>: the metric name, the value printed and the epoch.\<close>

datatype 'v printed = Dbl 'v | Size int

record 'v line =
  l_metric :: string
  l_value :: "'v printed"
  l_stamp :: int

section \<open>aggregator\_new\<close>

text \<open>
  Only the first \<^verbatim>\<open>malloc\<close> is tested by the code; the allocations of the array and of
  the buckets are taken to succeed. The mutex \<^verbatim>\<open>bucketlock\<close> has no counterpart: the
  functions below are the steps of one thread, and a run is a sequence of such steps.
\<close>

definition u32 :: "int \<Rightarrow> int" where
  \<comment> \<open>the value of an \<^verbatim>\<open>unsigned int\<close> expression\<close>
  "u32 x = x mod 2 ^ 32"

definition ll_chk :: "int \<Rightarrow> error + int" where
  \<comment> \<open>the value of a \<^verbatim>\<open>long long\<close> (or \<^verbatim>\<open>time_t\<close>) expression\<close>
  "ll_chk r = c_result c_llong r"

function new_buckets ::
  "layout \<Rightarrow> (nat \<Rightarrow> 'v bucket) \<Rightarrow> int \<Rightarrow> int \<Rightarrow> int \<Rightarrow> int \<Rightarrow> error + 'v bucket list" where
  "new_buckets lay mem now ival n i =
     (if c_less c_int i (bucketcnt_t lay) n then
        case ll_chk (now + u32 (conv c_uint i * ival)) of
          Inl e \<Rightarrow> Inl e
        | Inr st \<Rightarrow>
            (case c_add c_int i c_int 1 of
               Inl e \<Rightarrow> Inl e
             | Inr i' \<Rightarrow>
                 (case new_buckets lay mem now ival n i' of
                    Inl e \<Rightarrow> Inl e
                  | Inr bs \<Rightarrow> Inr ((mem (nat i))\<lparr>start := st, cnt := 0\<rparr> # bs)))
      else Inr [])"
  by pat_completeness auto
termination
proof (relation "measure (\<lambda>(lay, mem, now, ival, n, i). nat (2 ^ 31 - conv c_int i))")
  show "wf (measure (\<lambda>(lay, mem :: nat \<Rightarrow> 'v bucket, now, ival, n, i). nat (2 ^ 31 - conv c_int i)))"
    by simp
next
  fix lay :: layout and mem :: "nat \<Rightarrow> 'v bucket" and now ival n i st i' :: int
  assume "c_add c_int i c_int 1 = Inr i'"
  then have "i' = conv c_int i + 1 \<and> i' < 2 ^ 31"
    by (auto simp: c_add_def common_def promote_def c_int_def conv_def c_result_def
        in_range_def Let_def split: if_splits)
  moreover from this have "conv c_int i' = i'"
    by (simp add: conv_def c_int_def)
  ultimately show "((lay, mem, now, ival, n, i'), (lay, mem, now, ival, n, i))
      \<in> measure (\<lambda>(lay, mem, now, ival, n, i). nat (2 ^ 31 - conv c_int i))"
    by simp
qed

declare new_buckets.simps [simp del]

definition aggregator_new ::
  "layout \<Rightarrow> 'v new_env \<Rightarrow> 'v aggregator list \<Rightarrow> int \<Rightarrow> int \<Rightarrow> error + 'v aggregator list" where
  \<comment> \<open>\<open>ival\<close> and \<open>expi\<close> are the \<^verbatim>\<open>unsigned int\<close> arguments \<^verbatim>\<open>interval\<close> and
     \<^verbatim>\<open>expire\<close>, values from 0 to \<open>2 ^ 32 - 1\<close>; the result is the registry (the list
     from \<^verbatim>\<open>aggregators\<close> to \<^verbatim>\<open>lastaggr\<close>) with the new aggregator appended\<close>
  "aggregator_new lay env registry ival expi =
     (if \<not> malloc_ok env then Inl OutOfMemory
      else if ival = 0 then Inl DivByZero
      else
        case ll_chk (time_now env - u32 (u32 (u32 (expi - 1) div ival) * ival)) of
          Inl e \<Rightarrow> Inl e
        | Inr now \<Rightarrow>
            let n = conv (bucketcnt_t lay) (u32 (u32 (expi div ival + 1) + 2)) in
            (case new_buckets lay (mem_bucket env) now ival n 0 of
               Inl e \<Rightarrow> Inl e
             | Inr bs \<Rightarrow>
                 Inr (registry @
                   [\<lparr>interval = conv (interval_t lay) ival,
                     expire = conv (expire_t lay) expi,
                     bucketcnt = n, received = 0, sent = 0, dropped = 0,
                     buckets = bs, computes = mem_computes env\<rparr>])))"

section \<open>aggregator\_putmetric\<close>

definition bucket_add :: "'v::{plus,ord} bucket \<Rightarrow> 'v \<Rightarrow> 'v bucket" where
  \<comment> \<open>the update of \<^verbatim>\<open>*bucket\<close> under the lock\<close>
  "bucket_add bucket val =
     (if cnt bucket = 0 then bucket\<lparr>cnt := 1, sum_f := val, max_f := val, min_f := val\<rparr>
      else
        let b1 = bucket\<lparr>cnt := incr_size (cnt bucket), sum_f := sum_f bucket + val\<rparr>;
            b2 = (if max_f b1 < val then b1\<lparr>max_f := val\<rparr> else b1)
        in if min_f b2 > val then b2\<lparr>min_f := val\<rparr> else b2)"

definition aggregator_putmetric ::
  "layout \<Rightarrow> (string \<Rightarrow> 'v) \<Rightarrow> 'v::{plus,ord} aggregator \<Rightarrow> string
     \<Rightarrow> error + string list \<times> 'v aggregator" where
  \<comment> \<open>the result is what was written to \<^verbatim>\<open>stderr\<close> and the aggregator afterwards\<close>
  "aggregator_putmetric lay atof s metric =
     (case strchr metric CHR '' '' of
        None \<Rightarrow> Inr ([''aggregator: dropping incorrect metric: '' @ metric], s)
      | Some v \<Rightarrow>
          (case strchr v CHR '' '' of
             None \<Rightarrow> Inr ([''aggregator: dropping incorrect metric: '' @ metric], s)
           | Some t \<Rightarrow>
               let val = atof (tl v); epoch = atoll (tl t) in
               (case nth_chk (buckets s) 0 of
                  Inl e \<Rightarrow> Inl e
                | Inr b0 \<Rightarrow>
                    (case c_sub c_llong epoch c_llong (start b0) of
                       Inl e \<Rightarrow> Inl e
                     | Inr epoch' \<Rightarrow>
                         if epoch' < 0 then Inr ([], s\<lparr>dropped := incr_size (dropped s)\<rparr>)
                         else
                           (case c_div c_llong epoch' (interval_t lay) (interval s) of
                              Inl e \<Rightarrow> Inl e
                            | Inr q \<Rightarrow>
                                let slot = conv c_int q in
                                if \<not> c_less c_int slot (bucketcnt_t lay) (bucketcnt s) then
                                  Inr ([''aggregator: dropping metric too far in the future: ''
                                          @ metric],
                                       s\<lparr>dropped := incr_size (dropped s)\<rparr>)
                                else
                                  (case nth_chk (buckets s) slot of
                                     Inl e \<Rightarrow> Inl e
                                   | Inr bucket \<Rightarrow>
                                       Inr ([], s\<lparr>received := incr_size (received s),
                                                  buckets := (buckets s)
                                                    [nat slot := bucket_add bucket val]\<rparr>)))))))"

section \<open>aggregator\_expire\<close>

definition emit :: "(int \<Rightarrow> 'v) \<Rightarrow> int \<Rightarrow> 'v::inverse bucket \<Rightarrow> compute \<Rightarrow> 'v line" where
  \<comment> \<open>the \<^verbatim>\<open>switch\<close> on \<^verbatim>\<open>c->type\<close>; \<open>stamp\<close> is \<^verbatim>\<open>b->start + s->interval\<close> and \<open>dbl\<close>
     the conversion \<^verbatim>\<open>(double)b->cnt\<close>\<close>
  "emit dbl stamp b c =
     (case type_c c of
        SUM_c \<Rightarrow> \<lparr>l_metric = metric_c c, l_value = Dbl (sum_f b), l_stamp = stamp\<rparr>
      | CNT_c \<Rightarrow> \<lparr>l_metric = metric_c c, l_value = Size (cnt b), l_stamp = stamp\<rparr>
      | MAX_c \<Rightarrow> \<lparr>l_metric = metric_c c, l_value = Dbl (max_f b), l_stamp = stamp\<rparr>
      | MIN_c \<Rightarrow> \<lparr>l_metric = metric_c c, l_value = Dbl (min_f b), l_stamp = stamp\<rparr>
      | AVG_c \<Rightarrow> \<lparr>l_metric = metric_c c, l_value = Dbl (sum_f b / dbl (cnt b)), l_stamp = stamp\<rparr>)"

definition stamp_t :: "layout \<Rightarrow> inttype" where
  \<comment> \<open>the type of \<^verbatim>\<open>b->start + s->interval\<close>\<close>
  "stamp_t lay = common c_llong (interval_t lay)"

definition limit_t :: "layout \<Rightarrow> inttype" where
  \<comment> \<open>the type of \<^verbatim>\<open>now - s->expire\<close>\<close>
  "limit_t lay = common c_llong (expire_t lay)"

definition rotate :: "layout \<Rightarrow> 'v aggregator \<Rightarrow> 'v bucket \<Rightarrow> error + 'v aggregator" where
  \<comment> \<open>the statements under the lock; \<open>b\<close> is the bucket \<^verbatim>\<open>s->buckets[0]\<close> pointed at
     before the \<^verbatim>\<open>memmove\<close>\<close>
  "rotate lay s b =
     (let n = bucketcnt s; bs = buckets s in
      if n < 1 \<or> int (length bs) < n then Inl OutOfBounds
      else
        let moved = take (nat n - 1) (drop 1 bs) @ drop (nat n - 1) bs in
        (case nth_chk moved (n - 2) of
           Inl e \<Rightarrow> Inl e
         | Inr prev \<Rightarrow>
             (case c_add c_llong (start prev) (interval_t lay) (interval s) of
                Inl e \<Rightarrow> Inl e
              | Inr st \<Rightarrow>
                  Inr (s\<lparr>sent := incr_size (sent s),
                        buckets := moved[nat n - 1 := b\<lparr>cnt := 0, start := conv c_llong st\<rparr>]\<rparr>))))"

partial_function (option) expire_windows ::
  "layout \<Rightarrow> (int \<Rightarrow> 'v) \<Rightarrow> int \<Rightarrow> 'v::inverse aggregator \<Rightarrow> 'v line list
     \<Rightarrow> (error + 'v line list \<times> 'v aggregator) option" where
  \<comment> \<open>the \<^verbatim>\<open>while\<close> loop over the oldest bucket of one aggregator; \<open>out\<close> is what has
     been written to \<^verbatim>\<open>metricsock\<close> so far\<close>
  "expire_windows lay dbl now s out =
     (case nth_chk (buckets s) 0 of
        Inl e \<Rightarrow> Some (Inl e)
      | Inr b \<Rightarrow>
          (case c_add c_llong (start b) (interval_t lay) (interval s) of
             Inl e \<Rightarrow> Some (Inl e)
           | Inr stamp \<Rightarrow>
               (case c_sub c_llong now (expire_t lay) (expire s) of
                  Inl e \<Rightarrow> Some (Inl e)
                | Inr limit \<Rightarrow>
                    if c_less (stamp_t lay) stamp (limit_t lay) limit then
                      (case rotate lay s b of
                         Inl e \<Rightarrow> Some (Inl e)
                       | Inr s' \<Rightarrow>
                           expire_windows lay dbl now s'
                             (out @ map (emit dbl stamp b) (computes s)))
                    else Some (Inr (out, s)))))"

declare expire_windows.simps [code]

fun aggregator_expire ::
  "layout \<Rightarrow> (int \<Rightarrow> 'v) \<Rightarrow> int \<Rightarrow> 'v::inverse aggregator list \<Rightarrow> 'v line list
     \<Rightarrow> (error + 'v line list \<times> 'v aggregator list) option" where
  \<comment> \<open>one round of the sweeper at time \<open>now\<close>: the \<^verbatim>\<open>for\<close> loop over the registry\<close>
  "aggregator_expire lay dbl now [] out = Some (Inr (out, []))"
| "aggregator_expire lay dbl now (s # rest) out =
     (case expire_windows lay dbl now s out of
        None \<Rightarrow> None
      | Some (Inl e) \<Rightarrow> Some (Inl e)
      | Some (Inr (out', s')) \<Rightarrow>
          (case aggregator_expire lay dbl now rest out' of
             None \<Rightarrow> None
           | Some (Inl e) \<Rightarrow> Some (Inl e)
           | Some (Inr (out'', rest')) \<Rightarrow> Some (Inr (out'', s' # rest'))))"

definition closing :: "layout \<Rightarrow> int \<Rightarrow> 'v aggregator \<Rightarrow> bool option" where
  \<comment> \<open>the condition of the \<^verbatim>\<open>while\<close> loop,
     \<^verbatim>\<open>s->buckets[0]->start + s->interval < now - s->expire\<close>, where it has a value\<close>
  "closing lay now s =
     (case nth_chk (buckets s) 0 of
        Inl e \<Rightarrow> None
      | Inr b \<Rightarrow>
          (case c_add c_llong (start b) (interval_t lay) (interval s) of
             Inl e \<Rightarrow> None
           | Inr stamp \<Rightarrow>
               (case c_sub c_llong now (expire_t lay) (expire s) of
                  Inl e \<Rightarrow> None
                | Inr limit \<Rightarrow> Some (c_less (stamp_t lay) stamp (limit_t lay) limit))))"

section \<open>Runs of aggregator\_putmetric\<close>

fun putmetrics ::
  "layout \<Rightarrow> (string \<Rightarrow> 'v) \<Rightarrow> 'v::{plus,ord} aggregator \<Rightarrow> string list
     \<Rightarrow> error + 'v aggregator" where
  \<comment> \<open>\<^verbatim>\<open>aggregator_putmetric\<close> called for one line after the other\<close>
  "putmetrics lay atof s [] = Inr s"
| "putmetrics lay atof s (m # ms) =
     (case aggregator_putmetric lay atof s m of
        Inl e \<Rightarrow> Inl e
      | Inr (lg, s') \<Rightarrow> putmetrics lay atof s' ms)"

definition after_blank :: "string \<Rightarrow> string option" where
  \<comment> \<open>the text at \<^verbatim>\<open>v + 1\<close>, which \<^verbatim>\<open>atof\<close> and \<^verbatim>\<open>atoll\<close> read\<close>
  "after_blank metric = map_option tl (strchr metric CHR '' '')"

definition read_in_window :: "'v aggregator \<Rightarrow> nat \<Rightarrow> string \<Rightarrow> bool" where
  \<comment> \<open>the number \<^verbatim>\<open>aggregator_putmetric\<close> classifies the line by, which \<^verbatim>\<open>atoll\<close>
     reads after the first blank (the value token, not the third token: see C1), lies
     in \<open>[start, start + interval)\<close> of bucket \<open>k\<close>\<close>
  "read_in_window s k metric =
     (case after_blank metric of
        None \<Rightarrow> False
      | Some tok \<Rightarrow>
          start (buckets s ! k) \<le> atoll tok \<and> atoll tok < start (buckets s ! k) + interval s)"

definition read_in_range :: "'v aggregator \<Rightarrow> string \<Rightarrow> bool" where
  \<comment> \<open>the line has no blank, or the number \<^verbatim>\<open>aggregator_putmetric\<close> classifies it by
     stays within the arithmetic of that function: it is not more than \<open>2 ^ 63\<close> below
     \<^verbatim>\<open>buckets[0]->start\<close>, and the difference of the two, divided by \<^verbatim>\<open>interval\<close>,
     fits the \<^verbatim>\<open>int\<close> variable \<^verbatim>\<open>slot\<close>\<close>
  "read_in_range s metric =
     (case after_blank metric of
        None \<Rightarrow> True
      | Some tok \<Rightarrow>
          (case nth_chk (buckets s) 0 of
             Inl e \<Rightarrow> False
           | Inr b0 \<Rightarrow>
               - (2 ^ 63) \<le> atoll tok - start b0 \<and>
               (atoll tok - start b0) div interval s < 2 ^ 31))"

definition slot_of :: "layout \<Rightarrow> 'v aggregator \<Rightarrow> string \<Rightarrow> nat option" where
  \<comment> \<open>the cell \<^verbatim>\<open>aggregator_putmetric\<close> stores the sample of the line in, where it
     stores it: the tests of that function, in its order\<close>
  "slot_of lay s metric =
     (case after_blank metric of
        None \<Rightarrow> None
      | Some tok \<Rightarrow>
          (case nth_chk (buckets s) 0 of
             Inl e \<Rightarrow> None
           | Inr b0 \<Rightarrow>
               (case c_sub c_llong (atoll tok) c_llong (start b0) of
                  Inl e \<Rightarrow> None
                | Inr epoch' \<Rightarrow>
                    if epoch' < 0 then None
                    else
                      (case c_div c_llong epoch' (interval_t lay) (interval s) of
                         Inl e \<Rightarrow> None
                       | Inr q \<Rightarrow>
                           let slot = conv c_int q in
                           if \<not> c_less c_int slot (bucketcnt_t lay) (bucketcnt s) then None
                           else if 0 \<le> slot \<and> slot < int (length (buckets s))
                           then Some (nat slot) else None))))"

definition admitted :: "layout \<Rightarrow> 'v aggregator \<Rightarrow> nat \<Rightarrow> string \<Rightarrow> bool" where
  \<comment> \<open>the sample of the line is admitted into bucket \<open>k\<close>\<close>
  "admitted lay s k metric = (slot_of lay s metric = Some k)"

definition values_of :: "(string \<Rightarrow> 'v) \<Rightarrow> string list \<Rightarrow> 'v list" where
  \<comment> \<open>the values \<^verbatim>\<open>atof\<close> reads from the lines\<close>
  "values_of atof ms = List.map_filter (\<lambda>m. map_option atof (after_blank m)) ms"

section \<open>Well-formed aggregators\<close>

definition narrow :: "inttype \<Rightarrow> bool" where
  \<comment> \<open>a type of at most 32 bits, all of whose values a \<^verbatim>\<open>long long\<close> holds\<close>
  "narrow t = (0 < bits t \<and> bits t \<le> 32)"

definition wf_layout :: "layout \<Rightarrow> bool" where
  "wf_layout lay = (narrow (interval_t lay) \<and> narrow (expire_t lay) \<and> narrow (bucketcnt_t lay))"

fun spaced :: "int \<Rightarrow> int list \<Rightarrow> bool" where
  "spaced d (a # b # xs) = (b = a + d \<and> spaced d (b # xs))"
| "spaced d xs = True"

definition ring_inv :: "'v aggregator \<Rightarrow> bool" where
  \<comment> \<open>consecutive buckets' \<^verbatim>\<open>start\<close> differ by exactly \<^verbatim>\<open>interval\<close>\<close>
  "ring_inv s = spaced (interval s) (map start (buckets s))"

definition wf_aggregator :: "layout \<Rightarrow> 'v aggregator \<Rightarrow> bool" where
  \<comment> \<open>the fields hold values of their types, \<^verbatim>\<open>buckets\<close> has \<^verbatim>\<open>bucketcnt\<close> cells\<close>
  "wf_aggregator lay s =
     (in_range (interval_t lay) (interval s) \<and> 0 < interval s \<and>
      in_range (expire_t lay) (expire s) \<and>
      in_range (bucketcnt_t lay) (bucketcnt s) \<and> bucketcnt s < 2 ^ 31 \<and>
      int (length (buckets s)) = bucketcnt s \<and>
      list_all (in_range c_llong) (map start (buckets s)))"

section \<open>The arithmetic of double\<close>

text \<open>
  The functions are stated for any type of values. Where a statement is evaluated on
  \<^verbatim>\<open>double\<close> itself, this is the type: IEEE 754 binary64 with rounding to nearest, ties
  to even. A value is a finite number (a rational that the format represents), an
  infinity or a NaN. The two zeros are one value, which divides as \<open>+0\<close> does (the
  only divisor in \<^verbatim>\<open>aggregator.c\<close> is \<^verbatim>\<open>(double)b->cnt\<close>, never \<open>-0\<close>), and all NaNs
  are one value.
\<close>

datatype double = Num rat | PInf | MInf | NaN

function bit_length :: "int \<Rightarrow> int" where
  \<comment> \<open>the number of binary digits of a positive integer\<close>
  "bit_length n = (if n \<le> 0 then 0 else 1 + bit_length (n div 2))"
  by pat_completeness auto
termination
  by (relation "measure nat") auto

declare bit_length.simps [simp del]

definition pow2 :: "int \<Rightarrow> rat" where
  \<comment> \<open>\<open>2\<close> to the power \<open>k\<close>, for a negative \<open>k\<close> too\<close>
  "pow2 k = (if 0 \<le> k then 2 ^ nat k else 1 / 2 ^ nat (- k))"

definition ilog2 :: "rat \<Rightarrow> int" where
  \<comment> \<open>for \<open>x > 0\<close>, the exponent \<open>e\<close> with \<open>2 ^ e \<le> x < 2 ^ (e + 1)\<close>\<close>
  "ilog2 x =
     (if 1 \<le> x then bit_length \<lfloor>x\<rfloor> - 1 else - bit_length (\<lceil>1 / x\<rceil> - 1))"

definition round_even :: "rat \<Rightarrow> int" where
  \<comment> \<open>the nearest integer, a tie going to the even one\<close>
  "round_even m =
     (let f = \<lfloor>m\<rfloor>; r = m - of_int f in
      if r < 1 / 2 then f else if 1 / 2 < r then f + 1 else if even f then f else f + 1)"

definition round_double :: "rat \<Rightarrow> double" where
  \<comment> \<open>the \<^verbatim>\<open>double\<close> nearest to \<open>x\<close>: 53 significant binary digits at the exponent of
     \<open>x\<close>, the digits of a subnormal below \<open>2 ^ - 1022\<close>, an infinity from
     \<open>2 ^ 1024 - 2 ^ 970\<close> on\<close>
  "round_double x =
     (if x = 0 then Num 0
      else
        let e = max (ilog2 \<bar>x\<bar>) (- 1022);
            q = pow2 (e - 52);
            m = round_even (\<bar>x\<bar> / q)
        in if 1024 \<le> e \<or> (e = 1023 \<and> m = 9007199254740992)
           then (if 0 < x then PInf else MInf)
           else Num (sgn x * of_int m * q))"

fun dbl_add :: "double \<Rightarrow> double \<Rightarrow> double" where
  \<comment> \<open>\<^verbatim>\<open>x + y\<close>: the exact sum rounded; a NaN gives NaN, and so do opposite infinities\<close>
  "dbl_add (Num a) (Num b) = round_double (a + b)"
| "dbl_add NaN y = NaN"
| "dbl_add x NaN = NaN"
| "dbl_add PInf MInf = NaN"
| "dbl_add MInf PInf = NaN"
| "dbl_add PInf y = PInf"
| "dbl_add x PInf = PInf"
| "dbl_add MInf y = MInf"
| "dbl_add x MInf = MInf"

fun dbl_less :: "double \<Rightarrow> double \<Rightarrow> bool" where
  \<comment> \<open>\<^verbatim>\<open>x < y\<close>: false whenever one side is a NaN\<close>
  "dbl_less (Num a) (Num b) = (a < b)"
| "dbl_less NaN y = False"
| "dbl_less x NaN = False"
| "dbl_less x MInf = False"
| "dbl_less PInf y = False"
| "dbl_less MInf y = True"
| "dbl_less x PInf = True"

fun dbl_less_eq :: "double \<Rightarrow> double \<Rightarrow> bool" where
  \<comment> \<open>\<^verbatim>\<open>x <= y\<close>: false whenever one side is a NaN\<close>
  "dbl_less_eq (Num a) (Num b) = (a \<le> b)"
| "dbl_less_eq NaN y = False"
| "dbl_less_eq x NaN = False"
| "dbl_less_eq MInf y = True"
| "dbl_less_eq x PInf = True"
| "dbl_less_eq x MInf = False"
| "dbl_less_eq PInf y = False"

fun dbl_div :: "double \<Rightarrow> double \<Rightarrow> double" where
  \<comment> \<open>\<^verbatim>\<open>x / y\<close>: the exact quotient rounded; a number divided by zero is an infinity
     of its sign, zero divided by zero and an infinity divided by an infinity are NaN,
     a number divided by an infinity is zero\<close>
  "dbl_div (Num a) (Num b) =
     (if b \<noteq> 0 then round_double (a / b)
      else if a = 0 then NaN else if 0 < a then PInf else MInf)"
| "dbl_div NaN y = NaN"
| "dbl_div x NaN = NaN"
| "dbl_div (Num a) y = Num 0"
| "dbl_div PInf (Num b) = (if 0 \<le> b then PInf else MInf)"
| "dbl_div MInf (Num b) = (if 0 \<le> b then MInf else PInf)"
| "dbl_div x y = NaN"

instantiation double :: "{plus, ord, inverse}"
begin

definition plus_double :: "double \<Rightarrow> double \<Rightarrow> double" where
  "plus_double x y = dbl_add x y"

definition less_double :: "double \<Rightarrow> double \<Rightarrow> bool" where
  "less_double x y = dbl_less x y"

definition less_eq_double :: "double \<Rightarrow> double \<Rightarrow> bool" where
  "less_eq_double x y = dbl_less_eq x y"

definition divide_double :: "double \<Rightarrow> double \<Rightarrow> double" where
  "divide_double x y = dbl_div x y"

definition inverse_double :: "double \<Rightarrow> double" where
  "inverse_double x = dbl_div (Num 1) x"

instance ..

end

definition double_of_int :: "int \<Rightarrow> double" where
  \<comment> \<open>the conversion \<^verbatim>\<open>(double)b->cnt\<close> of an integer\<close>
  "double_of_int n = round_double (of_int n)"

text \<open>
  What \<^verbatim>\<open>atof\<close> (\<^verbatim>\<open>strtod\<close>) reads: white space, an optional sign, then \<^verbatim>\<open>nan\<close> or
  \<^verbatim>\<open>inf\<close> in either case, or decimal digits with an optional point and an optional
  exponent; the value is rounded to the nearest \<^verbatim>\<open>double\<close>, and text that starts with
  none of these reads as 0. The hexadecimal form \<^verbatim>\<open>0x...\<close> is not covered.
\<close>

definition tolower :: "char \<Rightarrow> char" where
  \<comment> \<open>an upper-case ASCII letter as its lower-case letter\<close>
  "tolower c = (if 65 \<le> (of_char c :: nat) \<and> (of_char c :: nat) \<le> 90
                then char_of ((of_char c :: nat) + 32) else c)"

definition starts_with :: "string \<Rightarrow> string \<Rightarrow> bool" where
  \<comment> \<open>\<open>s\<close> starts with the lower-case word \<open>w\<close>, in either case\<close>
  "starts_with w s = (map tolower (take (length w) s) = w)"

definition exponent :: "string \<Rightarrow> int" where
  \<comment> \<open>the exponent part \<^verbatim>\<open>e\<close>, optional sign, digits; 0 where there is none\<close>
  "exponent s =
     (case s of
        [] \<Rightarrow> 0
      | c # cs \<Rightarrow>
          if tolower c \<noteq> CHR ''e'' then 0
          else
            (case cs of
               [] \<Rightarrow> 0
             | d # ds \<Rightarrow>
                 if d = CHR ''-'' then (if takeWhile isdigit ds = [] then 0 else - digits 0 ds)
                 else if d = CHR ''+'' then (if takeWhile isdigit ds = [] then 0 else digits 0 ds)
                 else digits 0 cs))"

definition decimal :: "string \<Rightarrow> rat option" where
  \<comment> \<open>the number written by digits, an optional point and an optional exponent\<close>
  "decimal s =
     (let ip = takeWhile isdigit s; r1 = dropWhile isdigit s;
          fp = (case r1 of [] \<Rightarrow> [] | c # cs \<Rightarrow> if c = CHR ''.'' then takeWhile isdigit cs else []);
          r2 = (case r1 of [] \<Rightarrow> [] | c # cs \<Rightarrow> if c = CHR ''.'' then dropWhile isdigit cs else r1)
      in if ip = [] \<and> fp = [] then None
         else
           let e = exponent r2 - int (length fp); m = of_int (digits 0 (ip @ fp)) in
           Some (if 0 \<le> e then m * 10 ^ nat e else m / 10 ^ nat (- e)))"

definition atof_dec :: "string \<Rightarrow> double" where
  \<comment> \<open>\<^verbatim>\<open>atof\<close> on text in the decimal, \<^verbatim>\<open>inf\<close> or \<^verbatim>\<open>nan\<close> form\<close>
  "atof_dec s =
     (case dropWhile isspace s of
        [] \<Rightarrow> Num 0
      | c # cs \<Rightarrow>
          let neg = (c = CHR ''-''); body = (if c = CHR ''-'' \<or> c = CHR ''+'' then cs else c # cs) in
          if starts_with ''nan'' body then NaN
          else if starts_with ''inf'' body then (if neg then MInf else PInf)
          else
            (case decimal body of
               None \<Rightarrow> Num 0
             | Some x \<Rightarrow> round_double (if neg then - x else x)))"

section \<open>Example data\<close>

definition nl :: string where
  "nl = [CHR 0x0A]"

definition layout_int :: layout where
  \<comment> \<open>\<^verbatim>\<open>interval\<close> and \<^verbatim>\<open>expire\<close> typed as the arguments of \<^verbatim>\<open>aggregator_new\<close>,
     \<^verbatim>\<open>bucketcnt\<close> as the \<^verbatim>\<open>int\<close> it is compared with\<close>
  "layout_int = \<lparr>interval_t = c_uint, expire_t = c_uint, bucketcnt_t = c_int\<rparr>"

definition layout_short :: layout where
  "layout_short = \<lparr>interval_t = c_ushort, expire_t = c_ushort, bucketcnt_t = c_uchar\<rparr>"

definition atof_integral :: "string \<Rightarrow> rat" where
  \<comment> \<open>what \<^verbatim>\<open>atof\<close> returns on a token that is a decimal integer of magnitude at most
     \<open>2 ^ 53\<close>: such an integer is a \<^verbatim>\<open>double\<close>, and \<^verbatim>\<open>atof\<close> returns it exactly. On
     any other token \<^verbatim>\<open>atof\<close> is not this function (it rounds, and it reads fractions
     and exponents); the examples below use it on integers below \<open>2 ^ 53\<close> only, and
     \<open>atof_dec\<close> is the function for the general decimal token\<close>
  "atof_integral s = of_int (atoll s)"

definition blank :: "rat bucket" where
  "blank = \<lparr>start = 0, cnt = 0, sum_f = 0, max_f = 0, min_f = 0\<rparr>"

definition all_computes :: "compute list" where
  "all_computes =
     [\<lparr>type_c = SUM_c, metric_c = ''sum''\<rparr>, \<lparr>type_c = CNT_c, metric_c = ''cnt''\<rparr>,
      \<lparr>type_c = MAX_c, metric_c = ''max''\<rparr>, \<lparr>type_c = MIN_c, metric_c = ''min''\<rparr>,
      \<lparr>type_c = AVG_c, metric_c = ''avg''\<rparr>]"

definition env_1000 :: "rat new_env" where
  "env_1000 = \<lparr>malloc_ok = True, time_now = 1000, mem_computes = all_computes,
               mem_bucket = (\<lambda>i. blank)\<rparr>"

definition agg_1000 :: "rat aggregator" where
  \<comment> \<open>the aggregator \<^verbatim>\<open>aggregator_new(10, 20)\<close> builds at time 1000\<close>
  "agg_1000 =
     \<lparr>interval = 10, expire = 20, bucketcnt = 5, received = 0, sent = 0, dropped = 0,
      buckets = [blank\<lparr>start := 990\<rparr>, blank\<lparr>start := 1000\<rparr>, blank\<lparr>start := 1010\<rparr>,
                 blank\<lparr>start := 1020\<rparr>, blank\<lparr>start := 1030\<rparr>],
      computes = all_computes\<rparr>"

definition agg_995 :: "rat aggregator" where
  \<comment> \<open>\<open>agg_1000\<close> after the line \<^verbatim>\<open>m 995\<close>, asked for sums only\<close>
  "agg_995 =
     agg_1000\<lparr>received := 1,
       buckets := (buckets agg_1000)
         [0 := \<lparr>start = 990, cnt = 1, sum_f = 995, max_f = 995, min_f = 995\<rparr>],
       computes := [\<lparr>type_c = SUM_c, metric_c = ''sum''\<rparr>]\<rparr>"

definition layout_uint :: layout where
  "layout_uint = \<lparr>interval_t = c_uint, expire_t = c_uint, bucketcnt_t = c_uint\<rparr>"

definition agg_wrapped :: "rat aggregator" where
  \<comment> \<open>the aggregator \<^verbatim>\<open>aggregator_new(2147483648, 0)\<close> builds at time 1000, asked for
     sums only\<close>
  "agg_wrapped =
     \<lparr>interval = 2147483648, expire = 0, bucketcnt = 3, received = 0, sent = 0, dropped = 0,
      buckets = [blank\<lparr>start := - 2147482648\<rparr>, blank\<lparr>start := 1000\<rparr>,
                 blank\<lparr>start := - 2147482648\<rparr>],
      computes = [\<lparr>type_c = SUM_c, metric_c = ''sum''\<rparr>]\<rparr>"

definition blank_d :: "double bucket" where
  "blank_d = \<lparr>start = 0, cnt = 0, sum_f = Num 0, max_f = Num 0, min_f = Num 0\<rparr>"

definition env_d :: "int \<Rightarrow> double new_env" where
  \<comment> \<open>the clock shows \<open>t\<close>, \<^verbatim>\<open>malloc\<close> hands out zeroed memory\<close>
  "env_d t = \<lparr>malloc_ok = True, time_now = t, mem_computes = all_computes,
              mem_bucket = (\<lambda>i. blank_d)\<rparr>"

definition agg_d :: "double aggregator" where
  \<comment> \<open>the aggregator \<^verbatim>\<open>aggregator_new(10, 20)\<close> builds at time 1000\<close>
  "agg_d =
     \<lparr>interval = 10, expire = 20, bucketcnt = 5, received = 0, sent = 0, dropped = 0,
      buckets = [blank_d\<lparr>start := 990\<rparr>, blank_d\<lparr>start := 1000\<rparr>, blank_d\<lparr>start := 1010\<rparr>,
                 blank_d\<lparr>start := 1020\<rparr>, blank_d\<lparr>start := 1030\<rparr>],
      computes = all_computes\<rparr>"

definition agg_d0 :: "double aggregator" where
  \<comment> \<open>the aggregator \<^verbatim>\<open>aggregator_new(10, 20)\<close> builds at time 10\<close>
  "agg_d0 =
     \<lparr>interval = 10, expire = 20, bucketcnt = 5, received = 0, sent = 0, dropped = 0,
      buckets = [blank_d\<lparr>start := 0\<rparr>, blank_d\<lparr>start := 10\<rparr>, blank_d\<lparr>start := 20\<rparr>,
                 blank_d\<lparr>start := 30\<rparr>, blank_d\<lparr>start := 40\<rparr>],
      computes = all_computes\<rparr>"

definition three_lines :: "string list" where
  \<comment> \<open>three samples whose epochs 995, 991 and 999 are also their values\<close>
  "three_lines = [''m 995 995'' @ nl, ''m 991 991'' @ nl, ''m 999 999'' @ nl]"

section \<open>Facts about the integer model\<close>

lemma conv_id: "in_range t x \<Longrightarrow> 0 < bits t \<Longrightarrow> conv t x = x"
proof (cases "is_signed t")
  case False
  assume "in_range t x"
  with False show ?thesis by (simp add: in_range_def conv_def)
next
  case True
  assume r: "in_range t x" and b: "0 < bits t"
  from b have p: "(2::int) ^ bits t = 2 * 2 ^ (bits t - 1)"
    by (cases "bits t") simp_all
  from r True have "0 \<le> x + 2 ^ (bits t - 1)" "x + 2 ^ (bits t - 1) < 2 ^ bits t"
    by (simp_all add: in_range_def p)
  then have "(x + 2 ^ (bits t - 1)) mod 2 ^ bits t = x + 2 ^ (bits t - 1)"
    by simp
  with True show ?thesis by (simp add: conv_def)
qed

lemma pow_le_32: "bits t \<le> 32 \<Longrightarrow> (2::int) ^ bits t \<le> 4294967296"
proof -
  assume "bits t \<le> 32"
  then have "(2::int) ^ bits t \<le> 2 ^ 32" by (intro power_increasing) simp_all
  then show ?thesis by simp
qed

lemma pow_le_31: "bits t \<le> 32 \<Longrightarrow> (2::int) ^ (bits t - 1) \<le> 2147483648"
proof -
  assume "bits t \<le> 32"
  then have "(2::int) ^ (bits t - 1) \<le> 2 ^ 31" by (intro power_increasing) simp_all
  then show ?thesis by simp
qed

lemma in_range_narrow_bounds:
  "narrow t \<Longrightarrow> in_range t x \<Longrightarrow> - 2147483648 \<le> x \<and> x < 4294967296"
  using pow_le_32 [of t] pow_le_31 [of t]
  by (auto simp: narrow_def in_range_def split: if_splits)

lemma in_range_narrow_llong: "narrow t \<Longrightarrow> in_range t x \<Longrightarrow> in_range c_llong x"
proof -
  assume "narrow t" "in_range t x"
  then have "- 2147483648 \<le> x \<and> x < 4294967296" by (rule in_range_narrow_bounds)
  then show ?thesis by (simp add: in_range_def c_llong_def)
qed

lemma common_llong_narrow: "narrow t \<Longrightarrow> common c_llong t = c_llong"
  by (auto simp: common_def promote_def narrow_def c_llong_def c_int_def Let_def)

lemma conv_llong_id: "in_range c_llong x \<Longrightarrow> conv c_llong x = x"
  by (rule conv_id) (simp_all add: c_llong_def)

lemma c_add_llong_narrow:
  "narrow t \<Longrightarrow> in_range t b \<Longrightarrow> in_range c_llong a \<Longrightarrow>
   c_add c_llong a t b = (if in_range c_llong (a + b) then Inr (a + b) else Inl SignedOverflow)"
  by (simp add: c_add_def common_llong_narrow conv_llong_id in_range_narrow_llong c_result_def)
     (simp add: c_llong_def)

lemma c_sub_llong_narrow:
  "narrow t \<Longrightarrow> in_range t b \<Longrightarrow> in_range c_llong a \<Longrightarrow>
   c_sub c_llong a t b = (if in_range c_llong (a - b) then Inr (a - b) else Inl SignedOverflow)"
  by (simp add: c_sub_def common_llong_narrow conv_llong_id in_range_narrow_llong c_result_def)
     (simp add: c_llong_def)

lemma c_less_int_narrow:
  assumes "narrow t" "in_range t n" "0 \<le> i" "i < 2147483648"
  shows "c_less c_int i t n = (i < n)"
proof -
  have "bits t < 32 \<or> bits t = 32"
    using assms(1) by (auto simp: narrow_def)
  then consider (small) "bits t < 32" | (s32) "bits t = 32" "is_signed t"
    | (u32) "bits t = 32" "\<not> is_signed t"
    by blast
  then show ?thesis
  proof cases
    case small
    then have "(2::int) ^ bits t \<le> 2 ^ 31" by (intro power_increasing) simp_all
    moreover have "(2::int) ^ (bits t - 1) \<le> 2 ^ 31"
      using small by (intro power_increasing) simp_all
    ultimately have "in_range c_int n" using assms(2)
      by (auto simp: in_range_def c_int_def split: if_splits)
    moreover have "in_range c_int i" using assms by (simp add: in_range_def c_int_def)
    moreover have "common c_int t = c_int" using small
      by (simp add: common_def promote_def c_int_def Let_def)
    ultimately show ?thesis
      by (simp add: c_less_def conv_id c_int_def)
  next
    case s32
    then have "t = c_int" by (simp add: c_int_def)
    moreover have "in_range c_int i" using assms by (simp add: in_range_def c_int_def)
    ultimately show ?thesis using assms(2)
      by (simp add: c_less_def common_def promote_def Let_def conv_id) (simp add: conv_id c_int_def)
  next
    case u32
    then have "common c_int t = t"
      by (simp add: common_def promote_def c_int_def Let_def)
    moreover have "conv t i = i" using u32 assms by (simp add: conv_def)
    moreover have "conv t n = n" using u32 assms by (simp add: conv_def in_range_def)
    ultimately show ?thesis by (simp add: c_less_def)
  qed
qed

lemma atoll_range: "in_range c_llong (atoll s)"
  by (auto simp: atoll_def saturate_def in_range_def c_llong_def split: list.splits)

lemma common_same: "32 \<le> bits t \<Longrightarrow> common t t = t"
  by (simp add: common_def promote_def Let_def)

lemma c_sub_llong:
  "in_range c_llong a \<Longrightarrow> in_range c_llong b \<Longrightarrow>
   c_sub c_llong a c_llong b = (if in_range c_llong (a - b) then Inr (a - b) else Inl SignedOverflow)"
proof -
  assume "in_range c_llong a" "in_range c_llong b"
  moreover have "common c_llong c_llong = c_llong"
    by (rule common_same) (simp add: c_llong_def)
  ultimately show ?thesis
    by (simp add: c_sub_def conv_llong_id c_result_def) (simp add: c_llong_def)
qed

lemma div_between:
  fixes d k x :: int
  assumes "0 < d" "k * d \<le> x" "x < (k + 1) * d"
  shows "x div d = k"
proof -
  have r: "0 \<le> x - k * d" "x - k * d < d" using assms by (simp_all add: algebra_simps)
  have "x div d = ((x - k * d) + d * k) div d" by (simp add: algebra_simps)
  also have "\<dots> = k + (x - k * d) div d" using assms(1) by (subst div_mult_self2) simp_all
  also have "(x - k * d) div d = 0" using r by (simp add: div_pos_pos_trivial)
  finally show ?thesis by simp
qed

lemma c_div_llong_narrow:
  assumes "narrow t" "in_range t d" "0 < d" "0 \<le> a" "in_range c_llong a"
  shows "c_div c_llong a t d = Inr (a div d)"
proof -
  have q: "0 \<le> a div d" "a div d \<le> a"
    using assms(3,4) by (simp add: pos_imp_zdiv_nonneg_iff) (metis assms(3,4) div_0 int_div_le_self leI nle_le)
  have "trunc_div a d = a div d"
    using assms(3,4) by (cases "a = 0") (simp_all add: trunc_div_def)
  moreover have "in_range c_llong (a div d)"
    using q assms(5) by (simp add: in_range_def c_llong_def)
  moreover have "conv c_llong d = d"
    using assms(1,2) by (intro conv_llong_id in_range_narrow_llong)
  ultimately show ?thesis
    using assms by (simp add: c_div_def common_llong_narrow conv_llong_id c_result_def Let_def)
       (simp add: c_llong_def)
qed

section \<open>The constructor\<close>

lemma u32_bounds: "0 \<le> u32 x \<and> u32 x < 4294967296"
  by (simp add: u32_def)

lemma c_add_int_1: "0 \<le> i \<Longrightarrow> i + 1 < 2147483648 \<Longrightarrow> c_add c_int i c_int 1 = Inr (i + 1)"
  by (simp add: c_add_def common_def promote_def c_int_def conv_def c_result_def in_range_def Let_def)

lemma conv_uint_small: "0 \<le> i \<Longrightarrow> i < 2147483648 \<Longrightarrow> conv c_uint i = i"
  by (simp add: conv_def c_uint_def)

lemma ll_chk_Inr: "- 9223372036854775808 \<le> r \<Longrightarrow> r < 9223372036854775808 \<Longrightarrow> ll_chk r = Inr r"
  by (simp add: ll_chk_def c_result_def c_llong_def in_range_def)

lemma new_buckets_eq:
  assumes bt: "narrow (bucketcnt_t lay)" "in_range (bucketcnt_t lay) n" "n < 2147483648"
    and now: "- 9223372036854775808 \<le> now" "now + 4294967296 \<le> 9223372036854775808"
    and i: "0 \<le> i" "i \<le> n"
  shows "new_buckets lay mem now ival n i
     = Inr (map (\<lambda>k. (mem k)\<lparr>start := now + u32 (int k * ival), cnt := 0\<rparr>) [nat i..<nat n])"
  using i
proof (induction "nat (n - i)" arbitrary: i)
  case 0
  then have "\<not> i < n" by simp
  with bt "0.prems" have "\<not> c_less c_int i (bucketcnt_t lay) n"
    by (simp add: c_less_int_narrow)
  with \<open>\<not> i < n\<close> show ?case by (subst new_buckets.simps) simp
next
  case (Suc m)
  then have lt: "i < n" by linarith
  with bt(3) Suc.prems have small: "i + 1 < 2147483648" by linarith
  have less: "c_less c_int i (bucketcnt_t lay) n"
    using bt Suc.prems small lt by (simp add: c_less_int_narrow)
  have st: "ll_chk (now + u32 (conv c_uint i * ival)) = Inr (now + u32 (i * ival))"
    using now u32_bounds [of "i * ival"] Suc.prems small
    by (simp add: conv_uint_small ll_chk_Inr)
  have nxt: "c_add c_int i c_int 1 = Inr (i + 1)"
    using Suc.prems small by (simp add: c_add_int_1)
  have m: "m = nat (n - (i + 1))" using Suc(2) by linarith
  have rec: "new_buckets lay mem now ival n (i + 1)
     = Inr (map (\<lambda>k. (mem k)\<lparr>start := now + u32 (int k * ival), cnt := 0\<rparr>) [nat (i + 1)..<nat n])"
    using Suc.prems lt by (intro Suc(1) m) simp_all
  have "nat i < nat n" using lt Suc.prems by linarith
  then have "[nat i..<nat n] = nat i # [Suc (nat i)..<nat n]" by (rule upt_conv_Cons)
  moreover have "Suc (nat i) = nat (i + 1)" using Suc.prems by linarith
  ultimately have upt: "[nat i..<nat n] = nat i # [nat (i + 1)..<nat n]" by simp
  show ?case
    using less st nxt rec upt Suc.prems by (subst new_buckets.simps) simp
qed

lemma u32_id: "0 \<le> x \<Longrightarrow> x < 4294967296 \<Longrightarrow> u32 x = x"
  by (simp add: u32_def)

lemma aggregator_new_result:
  assumes env: "malloc_ok env" "- 4611686018427387904 \<le> time_now env" "time_now env < 4611686018427387904"
    and args: "0 < ival" "ival < 4294967296" "0 \<le> expi" "expi < 4294967296"
    and bt: "narrow (bucketcnt_t lay)" "in_range (bucketcnt_t lay) (expi div ival + 3)"
      "expi div ival + 3 < 2147483648"
  shows "aggregator_new lay env registry ival expi
    = Inr (registry @
        [\<lparr>interval = conv (interval_t lay) ival, expire = conv (expire_t lay) expi,
          bucketcnt = expi div ival + 3, received = 0, sent = 0, dropped = 0,
          buckets = map (\<lambda>k. (mem_bucket env k)
              \<lparr>start := time_now env - u32 (u32 (u32 (expi - 1) div ival) * ival)
                        + u32 (int k * ival), cnt := 0\<rparr>)
            [0..<nat (expi div ival + 3)],
          computes = mem_computes env\<rparr>])"
proof -
  let ?past = "u32 (u32 (u32 (expi - 1) div ival) * ival)"
  have bk: "0 \<le> ?past \<and> ?past < 4294967296" by (rule u32_bounds)
  have now: "ll_chk (time_now env - ?past) = Inr (time_now env - ?past)"
    using env bk by (intro ll_chk_Inr) linarith+
  have q: "0 \<le> expi div ival" using args by (simp add: pos_imp_zdiv_nonneg_iff)
  have n: "u32 (u32 (expi div ival + 1) + 2) = expi div ival + 3"
    using bt(3) q by (simp add: u32_id)
  have cn: "conv (bucketcnt_t lay) (expi div ival + 3) = expi div ival + 3"
    using bt by (intro conv_id) (simp_all add: narrow_def)
  have fill: "new_buckets lay (mem_bucket env) (time_now env - ?past) ival (expi div ival + 3) 0
     = Inr (map (\<lambda>k. (mem_bucket env k)\<lparr>start := time_now env - ?past + u32 (int k * ival), cnt := 0\<rparr>)
          [nat 0..<nat (expi div ival + 3)])"
    using bt env bk q by (intro new_buckets_eq) linarith+
  have ok: "\<not> \<not> malloc_ok env" "ival \<noteq> 0" using env(1) args(1) by simp_all
  show ?thesis
    unfolding aggregator_new_def Let_def n cn now
    by (simp only: ok if_False sum.case fill nat_0)
qed

section \<open>The ring and its rotation\<close>

lemma spaced_tl: "spaced d (x # xs) \<Longrightarrow> spaced d xs"
  by (cases xs) simp_all

lemma spaced_snoc: "spaced d xs \<Longrightarrow> xs \<noteq> [] \<Longrightarrow> spaced d (xs @ [last xs + d])"
  by (induction d xs rule: spaced.induct) auto

lemma spaced_sorted: "0 \<le> d \<Longrightarrow> spaced d xs \<Longrightarrow> sorted xs"
proof (induction d xs rule: spaced.induct)
  case (1 d a b xs)
  from "1.prems" have sp: "b = a + d" "spaced d (b # xs)" by auto
  from "1.IH" [OF "1.prems"(1) sp(2)] have "sorted (b # xs)" .
  moreover have "a \<le> b" using sp(1) "1.prems"(1) by simp
  ultimately show ?case by force
qed simp_all

lemma spaced_nth: "spaced d xs \<Longrightarrow> k < length xs \<Longrightarrow> xs ! k = hd xs + int k * d"
proof (induction d xs arbitrary: k rule: spaced.induct)
  case (1 d a b xs)
  from "1.prems" have sp: "b = a + d" "spaced d (b # xs)" by auto
  show ?case
  proof (cases k)
    case 0
    then show ?thesis by simp
  next
    case (Suc j)
    with "1.prems" have "j < length (b # xs)" by simp
    from "1.IH" [OF sp(2) this] have "(b # xs) ! j = b + int j * d" by simp
    with Suc sp(1) show ?thesis by (simp add: algebra_simps)
  qed
qed simp_all

lemma spaced_map_upt: "spaced d (map (\<lambda>k. a + int k * d) [i..<j])"
proof (induction "j - i" arbitrary: i)
  case 0
  then show ?case by simp
next
  case (Suc m)
  then have lt: "i < j" by linarith
  then have u: "[i..<j] = i # [Suc i..<j]" by (rule upt_conv_Cons)
  have IH: "spaced d (map (\<lambda>k. a + int k * d) [Suc i..<j])"
    using Suc by (intro Suc(1)) linarith
  show ?case
  proof (cases "Suc i < j")
    case True
    then have "[Suc i..<j] = Suc i # [Suc (Suc i)..<j]" by (rule upt_conv_Cons)
    with IH u show ?thesis by (simp add: algebra_simps)
  next
    case False
    with u show ?thesis by simp
  qed
qed

lemma c_less_llong:
  "in_range c_llong a \<Longrightarrow> in_range c_llong b \<Longrightarrow> c_less c_llong a c_llong b = (a < b)"
proof -
  assume "in_range c_llong a" "in_range c_llong b"
  moreover have "common c_llong c_llong = c_llong"
    by (simp add: common_def promote_def Let_def c_llong_def)
  ultimately show ?thesis by (simp add: c_less_def conv_llong_id)
qed

lemma rotate_value:
  assumes lay: "wf_layout lay" and wf: "wf_aggregator lay s" and n2: "2 \<le> bucketcnt s"
  shows "rotate lay s b =
     (if in_range c_llong (start (last (buckets s)) + interval s)
      then Inr (s\<lparr>sent := incr_size (sent s),
                  buckets := tl (buckets s) @
                    [b\<lparr>cnt := 0, start := start (last (buckets s)) + interval s\<rparr>]\<rparr>)
      else Inl SignedOverflow)"
proof -
  let ?n = "bucketcnt s" and ?bs = "buckets s"
  have len: "int (length ?bs) = ?n" using wf by (simp add: wf_aggregator_def)
  then have ne: "?bs \<noteq> []" using n2 by auto
  have ln: "length ?bs = nat ?n" using len by simp
  have moved: "take (nat ?n - 1) (drop 1 ?bs) @ drop (nat ?n - 1) ?bs = tl ?bs @ [last ?bs]"
  proof -
    have "take (nat ?n - 1) (drop 1 ?bs) = tl ?bs"
      using ln by (simp add: drop_Suc)
    moreover have "drop (nat ?n - 1) ?bs = [last ?bs]"
      using ln ne n2 by (metis One_nat_def append_butlast_last_id append_eq_conv_conj length_butlast)
    ultimately show ?thesis by simp
  qed
  have lt: "length (tl ?bs) = nat ?n - 1" using ln by simp
  have prev: "nth_chk (tl ?bs @ [last ?bs]) (?n - 2) = Inr (last ?bs)"
  proof -
    have "nat (?n - 2) < length (tl ?bs)" using lt n2 by simp
    then have "(tl ?bs @ [last ?bs]) ! nat (?n - 2) = tl ?bs ! nat (?n - 2)"
      by (simp add: nth_append)
    also have "\<dots> = ?bs ! Suc (nat (?n - 2))"
      using \<open>nat (?n - 2) < length (tl ?bs)\<close> by (rule nth_tl)
    also have "Suc (nat (?n - 2)) = length ?bs - 1" using ln n2 by simp
    also have "?bs ! (length ?bs - 1) = last ?bs" using ne by (simp add: last_conv_nth)
    finally show ?thesis using n2 ln by (simp add: nth_chk_def)
  qed
  have rng: "in_range c_llong (start (last ?bs))"
    using wf ne by (auto simp: wf_aggregator_def list_all_iff)
  have add: "c_add c_llong (start (last ?bs)) (interval_t lay) (interval s)
     = (if in_range c_llong (start (last ?bs) + interval s)
        then Inr (start (last ?bs) + interval s) else Inl SignedOverflow)"
    using lay wf rng by (intro c_add_llong_narrow) (simp_all add: wf_layout_def wf_aggregator_def)
  have upd: "(tl ?bs @ [last ?bs])[nat ?n - 1 := x] = tl ?bs @ [x]" for x
    using lt by (metis length_list_update list_update_length)
  have guard: "\<not> (?n < 1 \<or> int (length ?bs) < ?n)" using n2 len by simp
  show ?thesis
    by (simp only: rotate_def Let_def guard if_False moved prev sum.case add upd)
       (simp add: conv_llong_id)
qed

lemma rotate_eq:
  assumes lay: "wf_layout lay" and wf: "wf_aggregator lay s" and r: "rotate lay s b = Inr s'"
  shows "2 \<le> bucketcnt s \<and>
     in_range c_llong (start (last (buckets s)) + interval s) \<and>
     s' = s\<lparr>sent := incr_size (sent s),
            buckets := tl (buckets s) @
              [b\<lparr>cnt := 0, start := start (last (buckets s)) + interval s\<rparr>]\<rparr>"
proof -
  have len: "int (length (buckets s)) = bucketcnt s" using wf by (simp add: wf_aggregator_def)
  have n2: "2 \<le> bucketcnt s"
    using r len by (auto simp: rotate_def Let_def nth_chk_def split: if_splits sum.splits)
  from rotate_value [OF lay wf n2, of b] r n2 show ?thesis by (auto split: if_splits)
qed

section \<open>What preserves the ring\<close>

lemma putmetric_frame:
  "aggregator_putmetric lay atof s metric = Inr (lg, s') \<Longrightarrow>
   interval s' = interval s \<and> expire s' = expire s \<and> bucketcnt s' = bucketcnt s \<and>
   sent s' = sent s \<and> computes s' = computes s \<and>
   length (buckets s') = length (buckets s) \<and>
   map start (buckets s') = map start (buckets s)"
proof -
  assume r: "aggregator_putmetric lay atof s metric = Inr (lg, s')"
  have st: "start (bucket_add b v) = start b" for b :: "'a bucket" and v
    by (simp add: bucket_add_def Let_def)
  have upd: "nth_chk bs i = Inr b \<Longrightarrow>
      map start (bs[nat i := bucket_add b v]) = map start bs" for bs :: "'a bucket list" and i b v
    by (auto simp: nth_chk_def map_update st list_update_same_conv split: if_splits)
  from r show ?thesis
    by (auto simp: aggregator_putmetric_def Let_def upd
        split: option.splits sum.splits if_splits)
qed

lemma putmetric_ring_inv:
  "ring_inv s \<Longrightarrow> aggregator_putmetric lay atof s metric = Inr (lg, s') \<Longrightarrow> ring_inv s'"
  using putmetric_frame [of lay atof s metric lg s'] by (simp add: ring_inv_def)

lemma putmetric_wf:
  "wf_aggregator lay s \<Longrightarrow> aggregator_putmetric lay atof s metric = Inr (lg, s') \<Longrightarrow>
   wf_aggregator lay s'"
  using putmetric_frame [of lay atof s metric lg s'] by (simp add: wf_aggregator_def)

lemma rotate_ring_inv:
  assumes "wf_layout lay" "wf_aggregator lay s" "ring_inv s" "rotate lay s b = Inr s'"
  shows "ring_inv s' \<and> wf_aggregator lay s'"
proof -
  let ?bs = "buckets s"
  from rotate_eq [OF assms(1,2,4)]
  have n2: "2 \<le> bucketcnt s"
    and rng: "in_range c_llong (start (last ?bs) + interval s)"
    and s': "s' = s\<lparr>sent := incr_size (sent s),
            buckets := tl ?bs @ [b\<lparr>cnt := 0, start := start (last ?bs) + interval s\<rparr>]\<rparr>"
    by simp_all
  have len: "int (length ?bs) = bucketcnt s" using assms(2) by (simp add: wf_aggregator_def)
  then obtain x y ys where bs: "?bs = x # y # ys"
    using n2 by (cases ?bs; cases "tl ?bs") auto
  have sp: "spaced (interval s) (map start (y # ys))"
    using assms(3) bs by (auto simp: ring_inv_def)
  have "spaced (interval s) (map start (y # ys) @ [last (map start (y # ys)) + interval s])"
    using sp by (rule spaced_snoc) simp
  moreover have "last (map start (y # ys)) = start (last ?bs)"
    using bs by (simp add: last_map)
  ultimately have "ring_inv s'" using bs s' by (simp add: ring_inv_def)
  moreover have "wf_aggregator lay s'"
    using assms(2) rng bs s' by (simp add: wf_aggregator_def)
  ultimately show ?thesis ..
qed

lemma aggregator_new_ring_inv:
  assumes env: "malloc_ok env" "- 4611686018427387904 \<le> time_now env" "time_now env < 4611686018427387904"
    and args: "0 < ival" "ival < 4294967296" "0 \<le> expi" "expi < 4294967296"
    and lay: "wf_layout lay" "in_range (interval_t lay) ival" "in_range (expire_t lay) expi"
      "in_range (bucketcnt_t lay) (expi div ival + 3)"
    and small: "expi div ival + 3 < 2147483648" "(expi div ival + 2) * ival < 4294967296"
  shows "\<exists>s. aggregator_new lay env registry ival expi = Inr (registry @ [s]) \<and>
     ring_inv s \<and> wf_aggregator lay s \<and> interval s = ival \<and> expire s = expi"
proof -
  let ?now = "time_now env - u32 (u32 (u32 (expi - 1) div ival) * ival)"
  let ?n = "expi div ival + 3"
  let ?s = "\<lparr>interval = conv (interval_t lay) ival, expire = conv (expire_t lay) expi,
          bucketcnt = ?n, received = 0, sent = 0, dropped = 0,
          buckets = map (\<lambda>k. (mem_bucket env k)\<lparr>start := ?now + u32 (int k * ival), cnt := 0\<rparr>)
            [0..<nat ?n],
          computes = mem_computes env\<rparr>"
  have new: "aggregator_new lay env registry ival expi = Inr (registry @ [?s])"
    using env args lay small by (intro aggregator_new_result) (simp_all add: wf_layout_def)
  have ci: "conv (interval_t lay) ival = ival"
    using lay by (intro conv_id) (simp_all add: wf_layout_def narrow_def)
  have ce: "conv (expire_t lay) expi = expi"
    using lay by (intro conv_id) (simp_all add: wf_layout_def narrow_def)
  have q: "0 \<le> expi div ival" using args by (simp add: pos_imp_zdiv_nonneg_iff)
  have off: "u32 (int k * ival) = int k * ival" if "k \<in> set [0..<nat ?n]" for k
  proof -
    from that q have "int k \<le> expi div ival + 2" by auto
    then have "int k * ival \<le> (expi div ival + 2) * ival"
      using args(1) by (intro mult_right_mono) simp_all
    moreover have "0 \<le> int k * ival" using args(1) by simp
    ultimately show ?thesis using small(2) by (intro u32_id) linarith+
  qed
  have starts: "map start (buckets ?s) = map (\<lambda>k. ?now + int k * ival) [0..<nat ?n]"
    using off by (simp cong: map_cong)
  have bk: "0 \<le> u32 (u32 (u32 (expi - 1) div ival) * ival) \<and>
      u32 (u32 (u32 (expi - 1) div ival) * ival) < 4294967296"
    by (rule u32_bounds)
  have "ring_inv ?s"
    unfolding ring_inv_def starts using ci by (simp add: spaced_map_upt)
  moreover have "list_all (in_range c_llong) (map start (buckets ?s))"
  proof -
    have "in_range c_llong (?now + int k * ival)" if "k \<in> set [0..<nat ?n]" for k
    proof -
      have "0 \<le> int k * ival \<and> int k * ival < 4294967296"
        using off [OF that] u32_bounds [of "int k * ival"] by simp
      with env bk show ?thesis by (simp add: in_range_def c_llong_def)
    qed
    then show ?thesis unfolding starts by (simp add: list_all_iff)
  qed
  then have "wf_aggregator lay ?s"
    using lay args small q ci ce by (simp add: wf_aggregator_def)
  ultimately show ?thesis using new ci ce by simp
qed

section \<open>Parsing of the metric line\<close>

lemma strchr_self: "strchr (c # cs) c = Some (c # cs)"
  by simp

lemma strchr_Some_hd: "strchr xs c = Some v \<Longrightarrow> \<exists>cs. v = c # cs"
  by (induction xs) (auto split: if_splits)

lemma strchr_twice: "strchr xs c = Some v \<Longrightarrow> strchr v c = Some v"
  using strchr_Some_hd [of xs c v] by auto

lemma putmetric_no_space:
  "strchr metric CHR '' '' = None \<Longrightarrow>
   aggregator_putmetric lay atof s metric
     = Inr ([''aggregator: dropping incorrect metric: '' @ metric], s)"
  by (simp add: aggregator_putmetric_def)

text \<open>
  C1. The claim: for a line \<^verbatim>\<open><metric-name> <value> <epoch-seconds>\<close> the value is taken
  from the second token and the epoch from the third. The code searches the second
  blank with \<^verbatim>\<open>strchr(v, ' ')\<close>, where \<^verbatim>\<open>v\<close> already points at the first blank, so
  \<^verbatim>\<open>t\<close> is \<^verbatim>\<open>v\<close> and \<^verbatim>\<open>atoll(t + 1)\<close> reads the value token again. On the line
  \<^verbatim>\<open>m 7 1000\<close> the epoch used is 7, not 1000: with the oldest window starting at 990
  the sample is counted as dropped, although epoch 1000 lies in the second window.
\<close>

theorem putmetric_epoch_is_value_token:
  "strchr (''m 7 1000'' @ nl) CHR '' '' = Some ('' 7 1000'' @ nl) \<and>
   strchr ('' 7 1000'' @ nl) CHR '' '' = Some ('' 7 1000'' @ nl) \<and>
   atoll (''7 1000'' @ nl) = 7 \<and>
   aggregator_putmetric layout_int atof_integral agg_1000 (''m 7 1000'' @ nl)
     = Inr ([], agg_1000\<lparr>dropped := 1\<rparr>)"
  by code_simp

text \<open>
  C6. The claim: a line without the value field or without the epoch field changes no
  bucket and no counter. A line without any blank is rejected that way
  (\<open>putmetric_no_space\<close>), but the test for the second blank always succeeds, so a
  line without the epoch field is classified by its value token: \<^verbatim>\<open>m 995\<close> is stored
  in the oldest bucket and counted as received, \<^verbatim>\<open>m 42\<close> is counted as dropped.
\<close>

theorem putmetric_missing_epoch_not_rejected:
  "aggregator_putmetric layout_int atof_integral agg_1000 (''m 995'' @ nl)
     = Inr ([], agg_1000\<lparr>received := 1,
          buckets := (buckets agg_1000)
            [0 := \<lparr>start = 990, cnt = 1, sum_f = 995, max_f = 995, min_f = 995\<rparr>]\<rparr>) \<and>
   aggregator_putmetric layout_int atof_integral agg_1000 (''m 42'' @ nl)
     = Inr ([], agg_1000\<lparr>dropped := 1\<rparr>)"
  by code_simp

section \<open>Samples too far in the future\<close>

text \<open>
  C5. The claim: a sample whose slot \<open>(epoch - start) div interval\<close> is at least the
  ring length is counted as dropped and changes no bucket. The quotient is a
  \<^verbatim>\<open>long long\<close> and is stored in the \<^verbatim>\<open>int\<close> variable \<^verbatim>\<open>slot\<close> before the comparison
  with \<^verbatim>\<open>bucketcnt\<close>. For epoch 42949673950 and the oldest window starting at 990 the
  quotient is \<open>2 ^ 32\<close>, far beyond the 5 buckets, \<^verbatim>\<open>slot\<close> is 0, and the sample is
  added to the oldest bucket and counted as received. (A quotient that fits \<^verbatim>\<open>int\<close>
  is handled as claimed: \<open>putmetric_too_new\<close> at the end.)
\<close>

theorem putmetric_far_future_stored:
  "c_div c_llong (42949673950 - 990) (interval_t layout_int) (interval agg_1000)
     = Inr 4294967296 \<and>
   bucketcnt agg_1000 \<le> 4294967296 \<and>
   conv c_int 4294967296 = 0 \<and>
   aggregator_putmetric layout_int atof_integral agg_1000
       (''m 42949673950 42949673950'' @ nl)
     = Inr ([], agg_1000\<lparr>received := 1,
          buckets := (buckets agg_1000)
            [0 := \<lparr>start = 990, cnt = 1, sum_f = 42949673950, max_f = 42949673950,
                   min_f = 42949673950\<rparr>]\<rparr>)"
  by code_simp

lemma putmetric_unsigned_cnt_drops:
  "c_less c_int (- 2147483648) (bucketcnt_t layout_uint) (bucketcnt agg_1000) = False \<and>
   aggregator_putmetric layout_uint atof_integral agg_1000
       (''m 21474837470 21474837470'' @ nl)
     = Inr ([''aggregator: dropping metric too far in the future: ''
               @ ''m 21474837470 21474837470'' @ nl],
            agg_1000\<lparr>dropped := 1\<rparr>)"
  by code_simp

text \<open>
  C9. The claim: whenever \<^verbatim>\<open>buckets[slot]\<close> is read or written, \<open>0 \<le> slot < bucketcnt\<close>,
  also when the quotient exceeds the range of \<^verbatim>\<open>int\<close>. For epoch 21474837470 the
  quotient is \<open>2 ^ 31\<close> and \<^verbatim>\<open>slot\<close> is \<open>- 2 ^ 31\<close>. Where \<^verbatim>\<open>bucketcnt\<close> is compared as
  an \<^verbatim>\<open>int\<close> (it is declared \<^verbatim>\<open>int\<close>, or with a type narrower than \<^verbatim>\<open>int\<close>), the
  test \<^verbatim>\<open>slot >= s->bucketcnt\<close> fails and \<^verbatim>\<open>s->buckets[slot]\<close> is read outside the
  array. Were it declared \<^verbatim>\<open>unsigned int\<close>, the comparison would be unsigned and the
  sample dropped (\<open>putmetric_unsigned_cnt_drops\<close>).
\<close>

theorem putmetric_negative_slot:
  "c_div c_llong (21474837470 - 990) (interval_t layout_int) (interval agg_1000)
     = Inr 2147483648 \<and>
   conv c_int 2147483648 = - 2147483648 \<and>
   c_less c_int (- 2147483648) (bucketcnt_t layout_int) (bucketcnt agg_1000) \<and>
   c_less c_int (- 2147483648) (bucketcnt_t layout_short) (bucketcnt agg_1000) \<and>
   aggregator_putmetric layout_int atof_integral agg_1000
       (''m 21474837470 21474837470'' @ nl) = Inl OutOfBounds \<and>
   aggregator_putmetric layout_short atof_integral agg_1000
       (''m 21474837470 21474837470'' @ nl) = Inl OutOfBounds"
  by code_simp

section \<open>The length of the ring\<close>

text \<open>
  C3. The claim: for every interval \<open>> 0\<close> and expiry, the ring that
  \<^verbatim>\<open>aggregator_new\<close> allocates has \<open>\<lceil>expiry / interval\<rceil> + 3\<close> buckets. The code
  computes \<^verbatim>\<open>expire / interval + 1 + 2\<close> with the integer division of
  \<^verbatim>\<open>unsigned int\<close>, which rounds down. The claim as amended: the ring has
  \<open>\<lfloor>expiry / interval\<rfloor> + 3\<close> buckets, for every interval \<open>> 0\<close> and expiry for which
  this number fits \<^verbatim>\<open>int\<close> and the type of the field \<^verbatim>\<open>bucketcnt\<close>.
\<close>

theorem aggregator_new_ring_length:
  assumes "malloc_ok env" "- (2 ^ 62) \<le> time_now env" "time_now env < 2 ^ 62"
    and "0 < ival" "ival < 2 ^ 32" "0 \<le> expi" "expi < 2 ^ 32"
    and "narrow (bucketcnt_t lay)" "in_range (bucketcnt_t lay) (expi div ival + 3)"
    and "expi div ival + 3 < 2 ^ 31"
  shows "\<exists>s. aggregator_new lay env registry ival expi = Inr (registry @ [s]) \<and>
     bucketcnt s = \<lfloor>real_of_int expi / real_of_int ival\<rfloor> + 3 \<and>
     int (length (buckets s)) = \<lfloor>real_of_int expi / real_of_int ival\<rfloor> + 3"
proof -
  have fl: "\<lfloor>real_of_int expi / real_of_int ival\<rfloor> = expi div ival"
    by (simp add: floor_divide_of_int_eq)
  have q: "0 \<le> expi div ival" using assms by (simp add: pos_imp_zdiv_nonneg_iff)
  have "aggregator_new lay env registry ival expi
    = Inr (registry @
        [\<lparr>interval = conv (interval_t lay) ival, expire = conv (expire_t lay) expi,
          bucketcnt = expi div ival + 3, received = 0, sent = 0, dropped = 0,
          buckets = map (\<lambda>k. (mem_bucket env k)
              \<lparr>start := time_now env - u32 (u32 (u32 (expi - 1) div ival) * ival)
                        + u32 (int k * ival), cnt := 0\<rparr>)
            [0..<nat (expi div ival + 3)],
          computes = mem_computes env\<rparr>])"
    by (rule aggregator_new_result) (use assms in simp_all)
  then show ?thesis
    unfolding fl using q by simp
qed

text \<open>The hypotheses hold for interval 10 and expiry 15: the ring has 4 buckets.\<close>

theorem aggregator_new_ring_length_witness:
  "malloc_ok env_1000 \<and> narrow (bucketcnt_t layout_int) \<and>
   in_range (bucketcnt_t layout_int) (15 div 10 + 3) \<and>
   (\<exists>s. aggregator_new layout_int env_1000 [] 10 15 = Inr ([] @ [s]) \<and>
      bucketcnt s = \<lfloor>real_of_int 15 / real_of_int 10\<rfloor> + 3 \<and>
      int (length (buckets s)) = \<lfloor>real_of_int 15 / real_of_int 10\<rfloor> + 3)"
proof -
  have h: "malloc_ok env_1000" "- (2 ^ 62) \<le> time_now env_1000" "time_now env_1000 < 2 ^ 62"
    "narrow (bucketcnt_t layout_int)" "in_range (bucketcnt_t layout_int) (15 div 10 + 3)"
    by (simp_all add: env_1000_def layout_int_def narrow_def c_int_def in_range_def)
  from aggregator_new_ring_length
    [where env = env_1000 and lay = layout_int and ival = 10 and expi = 15 and registry = "[]"] h
  show ?thesis by simp
qed

text \<open>
  For interval 10 and expiry 15 the claim as stated asks for \<open>\<lceil>1.5\<rceil> + 3 = 5\<close> buckets;
  \<^verbatim>\<open>bucketcnt\<close> is 4 and 4 buckets are allocated.
\<close>

theorem aggregator_new_ceiling_counterexample:
  "map_sum id (map bucketcnt) (aggregator_new layout_int env_1000 [] 10 15) = Inr [4] \<and>
   map_sum id (map (length \<circ> buckets)) (aggregator_new layout_int env_1000 [] 10 15) = Inr [4] \<and>
   (4::int) \<noteq> \<lceil>15 / 10 :: real\<rceil> + 3"
proof -
  have "aggregator_new layout_int env_1000 [] 10 15
     = Inr [agg_1000\<lparr>expire := 15, bucketcnt := 4,
          buckets := [blank\<lparr>start := 990\<rparr>, blank\<lparr>start := 1000\<rparr>, blank\<lparr>start := 1010\<rparr>,
                      blank\<lparr>start := 1020\<rparr>]\<rparr>]"
    by code_simp
  then show ?thesis by (simp add: agg_1000_def)
qed

section \<open>The invariant of the ring\<close>

text \<open>
  An ingestion returns whenever the number it classifies the line by is within the
  range of its arithmetic.
\<close>

lemma putmetric_returns:
  fixes s :: "'v::{plus,ord} aggregator"
  assumes lay: "wf_layout lay" and wf: "wf_aggregator lay s" and r: "read_in_range s metric"
  shows "\<exists>lg s'. aggregator_putmetric lay atof s metric = Inr (lg, s')"
proof (cases "strchr metric CHR '' ''")
  case None
  then show ?thesis by (simp add: putmetric_no_space)
next
  case (Some v)
  have v2: "strchr v CHR '' '' = Some v" using Some by (rule strchr_twice)
  from r Some obtain b0 where b0: "nth_chk (buckets s) 0 = Inr b0"
    and lo: "- (2 ^ 63) \<le> atoll (tl v) - start b0"
    and hi: "(atoll (tl v) - start b0) div interval s < 2 ^ 31"
    by (auto simp: read_in_range_def after_blank_def split: sum.splits)
  let ?e = "atoll (tl v) - start b0" and ?d = "interval s" and ?n = "bucketcnt s"
  have d: "0 < ?d" "in_range (interval_t lay) ?d" and cn: "in_range (bucketcnt_t lay) ?n"
    and len: "int (length (buckets s)) = ?n"
    using wf by (simp_all add: wf_aggregator_def)
  have types: "narrow (interval_t lay)" "narrow (bucketcnt_t lay)"
    using lay by (simp_all add: wf_layout_def)
  have "b0 \<in> set (buckets s)"
    using b0 by (auto simp: nth_chk_def split: if_splits)
  then have r0: "in_range c_llong (start b0)"
    using wf by (auto simp: wf_aggregator_def list_all_iff)
  have dlt: "?d < 4294967296" using in_range_narrow_bounds [OF types(1) d(2)] by simp
  have up: "?e < 9223372036854775808"
  proof -
    have m: "?d * (?e div ?d) + ?e mod ?d = ?e" by (rule mult_div_mod_eq)
    have "?e mod ?d < ?d" using d(1) by simp
    with m have "?e < ?d * (?e div ?d) + ?d" by linarith
    also have "\<dots> = ?d * (?e div ?d + 1)" by (simp add: algebra_simps)
    also have "\<dots> \<le> ?d * 2147483648" using hi d(1) by (intro mult_left_mono) simp_all
    also have "\<dots> \<le> 4294967296 * 2147483648" using dlt by simp
    finally show ?thesis by simp
  qed
  have rng: "in_range c_llong ?e" using lo up by (simp add: in_range_def c_llong_def)
  have sub: "c_sub c_llong (atoll (tl v)) c_llong (start b0) = Inr ?e"
    using atoll_range [of "tl v"] r0 rng by (simp add: c_sub_llong)
  show ?thesis
  proof (cases "?e < 0")
    case True
    then show ?thesis
      using Some v2 b0 sub by (simp add: aggregator_putmetric_def Let_def)
  next
    case False
    then have e_nn: "0 \<le> ?e" by simp
    have dv: "c_div c_llong ?e (interval_t lay) ?d = Inr (?e div ?d)"
      using types(1) d(2) d(1) e_nn rng by (rule c_div_llong_narrow)
    have qn: "0 \<le> ?e div ?d" using e_nn d(1) by (simp add: pos_imp_zdiv_nonneg_iff)
    have slot: "conv c_int (?e div ?d) = ?e div ?d"
      using qn hi by (intro conv_id) (simp_all add: in_range_def c_int_def)
    have less: "c_less c_int (?e div ?d) (bucketcnt_t lay) ?n = (?e div ?d < ?n)"
      using c_less_int_narrow [OF types(2) cn qn] hi by simp
    show ?thesis
    proof (cases "?e div ?d < ?n")
      case True
      then have cell: "nth_chk (buckets s) (?e div ?d) = Inr (buckets s ! nat (?e div ?d))"
        using qn len by (simp add: nth_chk_def)
      show ?thesis
        using Some v2 b0 sub False dv slot less True cell
        by (simp add: aggregator_putmetric_def Let_def)
    next
      case F: False
      show ?thesis
        using Some v2 b0 sub False dv slot less F
        by (simp add: aggregator_putmetric_def Let_def)
    qed
  qed
qed

text \<open>
  C8. The claim: for every aggregator, consecutive buckets' \<^verbatim>\<open>start\<close> differ by exactly
  \<^verbatim>\<open>interval\<close> (so the ring is sorted ascending and \<^verbatim>\<open>buckets[0]\<close> is the oldest
  window); this is established by construction and preserved by every ingestion and
  every rotation of the sweeper. The offsets \<^verbatim>\<open>i * interval\<close> of the constructor are
  \<^verbatim>\<open>unsigned int\<close> products and wrap at \<open>2 ^ 32\<close>, the fields have the widths of their
  declarations, and an ingestion whose slot does not fit \<^verbatim>\<open>int\<close> writes outside the
  array (C9). The claim as amended: the constructor establishes the invariant for every
  interval and expiry that fit their fields and whose largest offset
  \<open>(bucketcnt - 1) * interval\<close> is below \<open>2 ^ 32\<close>. Every ingestion that returns
  preserves it, and an ingestion returns whenever the number it classifies the line by
  is not more than \<open>2 ^ 63\<close> below \<^verbatim>\<open>buckets[0]->start\<close> and the difference of the
  two, divided by \<^verbatim>\<open>interval\<close>, is below \<open>2 ^ 31\<close> (\<open>read_in_range\<close>). Every rotation
  that returns
  preserves it, and in a ring of at least two buckets a rotation returns whenever the
  new \<^verbatim>\<open>start\<close> is within \<^verbatim>\<open>long long\<close>. Under the invariant the ring is sorted
  ascending.
\<close>

theorem ring_spacing_invariant:
  fixes s :: "'v::{plus,ord} aggregator"
  shows
  "(malloc_ok env \<and> - (2 ^ 62) \<le> time_now env \<and> time_now env < 2 ^ 62 \<and>
    0 < ival \<and> ival < 2 ^ 32 \<and> 0 \<le> expi \<and> expi < 2 ^ 32 \<and>
    wf_layout lay \<and> in_range (interval_t lay) ival \<and> in_range (expire_t lay) expi \<and>
    in_range (bucketcnt_t lay) (expi div ival + 3) \<and>
    expi div ival + 3 < 2 ^ 31 \<and> (expi div ival + 2) * ival < 2 ^ 32
    \<longrightarrow> (\<exists>s0. aggregator_new lay env registry ival expi = Inr (registry @ [s0]) \<and>
           ring_inv s0 \<and> wf_aggregator lay s0)) \<and>
   (ring_inv s \<and> wf_aggregator lay s \<and> aggregator_putmetric lay atof s metric = Inr (lg, s')
    \<longrightarrow> ring_inv s' \<and> wf_aggregator lay s') \<and>
   (wf_layout lay \<and> ring_inv s \<and> wf_aggregator lay s \<and> read_in_range s metric
    \<longrightarrow> (\<exists>lg1 s1. aggregator_putmetric lay atof s metric = Inr (lg1, s1) \<and>
           ring_inv s1 \<and> wf_aggregator lay s1)) \<and>
   (wf_layout lay \<and> ring_inv s \<and> wf_aggregator lay s \<and> rotate lay s b = Inr s''
    \<longrightarrow> ring_inv s'' \<and> wf_aggregator lay s'') \<and>
   (wf_layout lay \<and> ring_inv s \<and> wf_aggregator lay s \<and> 2 \<le> bucketcnt s \<and>
    in_range c_llong (start (last (buckets s)) + interval s)
    \<longrightarrow> (\<exists>s2. rotate lay s b = Inr s2 \<and> ring_inv s2 \<and> wf_aggregator lay s2)) \<and>
   (ring_inv s \<and> wf_aggregator lay s \<longrightarrow> sorted (map start (buckets s)))"
proof (intro conjI impI)
  assume h: "malloc_ok env \<and> - (2 ^ 62) \<le> time_now env \<and> time_now env < 2 ^ 62 \<and>
    0 < ival \<and> ival < 2 ^ 32 \<and> 0 \<le> expi \<and> expi < 2 ^ 32 \<and>
    wf_layout lay \<and> in_range (interval_t lay) ival \<and> in_range (expire_t lay) expi \<and>
    in_range (bucketcnt_t lay) (expi div ival + 3) \<and>
    expi div ival + 3 < 2 ^ 31 \<and> (expi div ival + 2) * ival < 2 ^ 32"
  have "\<exists>s0. aggregator_new lay env registry ival expi = Inr (registry @ [s0]) \<and>
     ring_inv s0 \<and> wf_aggregator lay s0 \<and> interval s0 = ival \<and> expire s0 = expi"
    by (rule aggregator_new_ring_inv) (use h in simp_all)
  then show "\<exists>s0. aggregator_new lay env registry ival expi = Inr (registry @ [s0]) \<and>
     ring_inv s0 \<and> wf_aggregator lay s0"
    by blast
next
  assume "ring_inv s \<and> wf_aggregator lay s \<and> aggregator_putmetric lay atof s metric = Inr (lg, s')"
  then show "ring_inv s'" "wf_aggregator lay s'"
    using putmetric_ring_inv putmetric_wf by blast+
next
  assume h: "wf_layout lay \<and> ring_inv s \<and> wf_aggregator lay s \<and> read_in_range s metric"
  then have "\<exists>lg1 s1. aggregator_putmetric lay atof s metric = Inr (lg1, s1)"
    by (intro putmetric_returns) simp_all
  then obtain lg1 s1 where r: "aggregator_putmetric lay atof s metric = Inr (lg1, s1)"
    by blast
  with h have "ring_inv s1" "wf_aggregator lay s1"
    using putmetric_ring_inv putmetric_wf by blast+
  with r show "\<exists>lg1 s1. aggregator_putmetric lay atof s metric = Inr (lg1, s1) \<and>
           ring_inv s1 \<and> wf_aggregator lay s1"
    by blast
next
  assume "wf_layout lay \<and> ring_inv s \<and> wf_aggregator lay s \<and> rotate lay s b = Inr s''"
  then show "ring_inv s''" "wf_aggregator lay s''"
    using rotate_ring_inv by blast+
next
  assume h: "wf_layout lay \<and> ring_inv s \<and> wf_aggregator lay s \<and> 2 \<le> bucketcnt s \<and>
    in_range c_llong (start (last (buckets s)) + interval s)"
  then have "rotate lay s b
      = Inr (s\<lparr>sent := incr_size (sent s),
                  buckets := tl (buckets s) @
                    [b\<lparr>cnt := 0, start := start (last (buckets s)) + interval s\<rparr>]\<rparr>)"
    by (simp add: rotate_value)
  then obtain s2 where r: "rotate lay s b = Inr s2" by blast
  with h have "ring_inv s2 \<and> wf_aggregator lay s2"
    by (intro rotate_ring_inv [of lay s b s2]) simp_all
  with r show "\<exists>s2. rotate lay s b = Inr s2 \<and> ring_inv s2 \<and> wf_aggregator lay s2"
    by blast
next
  assume "ring_inv s \<and> wf_aggregator lay s"
  then show "sorted (map start (buckets s))"
    using spaced_sorted [of "interval s" "map start (buckets s)"]
    by (simp add: ring_inv_def wf_aggregator_def)
qed

text \<open>
  The hypotheses hold for \<^verbatim>\<open>aggregator_new(10, 20)\<close> at time 1000, for the line
  \<^verbatim>\<open>m 995 995\<close> put into the aggregator it builds, and for the rotation of that
  aggregator.
\<close>

theorem ring_spacing_invariant_witness:
  "malloc_ok env_1000 \<and> wf_layout layout_int \<and> in_range (interval_t layout_int) 10 \<and>
   in_range (expire_t layout_int) 20 \<and> in_range (bucketcnt_t layout_int) (20 div 10 + 3) \<and>
   (\<exists>s0. aggregator_new layout_int env_1000 [] 10 20 = Inr ([] @ [s0]) \<and>
      ring_inv s0 \<and> wf_aggregator layout_int s0) \<and>
   ring_inv agg_1000 \<and> wf_aggregator layout_int agg_1000 \<and>
   aggregator_putmetric layout_int atof_integral agg_1000 (''m 995 995'' @ nl)
     = Inr ([], agg_1000\<lparr>received := 1,
          buckets := (buckets agg_1000)
            [0 := \<lparr>start = 990, cnt = 1, sum_f = 995, max_f = 995, min_f = 995\<rparr>]\<rparr>) \<and>
   ring_inv (agg_1000\<lparr>received := 1,
          buckets := (buckets agg_1000)
            [0 := \<lparr>start = 990, cnt = 1, sum_f = 995, max_f = 995, min_f = 995\<rparr>]\<rparr>) \<and>
   read_in_range agg_1000 (''m 995 995'' @ nl) \<and>
   (\<exists>lg1 s1. aggregator_putmetric layout_int atof_integral agg_1000 (''m 995 995'' @ nl)
        = Inr (lg1, s1) \<and> ring_inv s1 \<and> wf_aggregator layout_int s1) \<and>
   rotate layout_int agg_1000 (blank\<lparr>start := 990\<rparr>)
     = Inr (agg_1000\<lparr>sent := 1,
          buckets := [blank\<lparr>start := 1000\<rparr>, blank\<lparr>start := 1010\<rparr>, blank\<lparr>start := 1020\<rparr>,
                      blank\<lparr>start := 1030\<rparr>, blank\<lparr>start := 1040\<rparr>]\<rparr>) \<and>
   ring_inv (agg_1000\<lparr>sent := 1,
          buckets := [blank\<lparr>start := 1000\<rparr>, blank\<lparr>start := 1010\<rparr>, blank\<lparr>start := 1020\<rparr>,
                      blank\<lparr>start := 1030\<rparr>, blank\<lparr>start := 1040\<rparr>]\<rparr>) \<and>
   2 \<le> bucketcnt agg_1000 \<and>
   in_range c_llong (start (last (buckets agg_1000)) + interval agg_1000) \<and>
   (\<exists>s2. rotate layout_int agg_1000 (blank\<lparr>start := 990\<rparr>) = Inr s2 \<and> ring_inv s2 \<and>
      wf_aggregator layout_int s2) \<and>
   sorted (map start (buckets agg_1000))"
proof -
  have lay: "wf_layout layout_int" "in_range (interval_t layout_int) 10"
    "in_range (expire_t layout_int) 20" "in_range (bucketcnt_t layout_int) (20 div 10 + 3)"
    by (simp_all add: wf_layout_def layout_int_def narrow_def c_uint_def c_int_def in_range_def)
  have env: "malloc_ok env_1000" "- (2 ^ 62) \<le> time_now env_1000" "time_now env_1000 < 2 ^ 62"
    by (simp_all add: env_1000_def)
  have agg: "ring_inv agg_1000" "wf_aggregator layout_int agg_1000"
    "read_in_range agg_1000 (''m 995 995'' @ nl)" "2 \<le> bucketcnt agg_1000"
    "in_range c_llong (start (last (buckets agg_1000)) + interval agg_1000)"
    by code_simp+
  have put: "aggregator_putmetric layout_int atof_integral agg_1000 (''m 995 995'' @ nl)
     = Inr ([], agg_1000\<lparr>received := 1,
          buckets := (buckets agg_1000)
            [0 := \<lparr>start = 990, cnt = 1, sum_f = 995, max_f = 995, min_f = 995\<rparr>]\<rparr>)"
    by code_simp
  have rot: "rotate layout_int agg_1000 (blank\<lparr>start := 990\<rparr>)
     = Inr (agg_1000\<lparr>sent := 1,
          buckets := [blank\<lparr>start := 1000\<rparr>, blank\<lparr>start := 1010\<rparr>, blank\<lparr>start := 1020\<rparr>,
                      blank\<lparr>start := 1030\<rparr>, blank\<lparr>start := 1040\<rparr>]\<rparr>)"
    by code_simp
  note inv = ring_spacing_invariant
    [where env = env_1000 and lay = layout_int and ival = 10 and expi = 20 and registry = "[]"
       and s = agg_1000 and atof = atof_integral and metric = "''m 995 995'' @ nl" and lg = "[]"
       and b = "blank\<lparr>start := 990\<rparr>"]
  from inv lay env agg put rot show ?thesis by simp
qed

text \<open>
  For interval \<open>2 ^ 31\<close> and expiry 0 the third offset \<^verbatim>\<open>2 * interval\<close> wraps to 0: the
  ring is built with the starts \<open>- 2147482648\<close>, 1000, \<open>- 2147482648\<close>, and the claim as
  stated fails for this aggregator. And the ring of \<^verbatim>\<open>aggregator_new(10, 20)\<close>, which
  satisfies the invariant, is left by the ingestion of the line
  \<^verbatim>\<open>m 21474837470 21474837470\<close> through a write outside the array, after which nothing
  is known of it.
\<close>

theorem aggregator_new_ring_counterexample:
  "map_sum id (map interval) (aggregator_new layout_int env_1000 [] 2147483648 0)
     = Inr [2147483648] \<and>
   map_sum id (map (map start \<circ> buckets)) (aggregator_new layout_int env_1000 [] 2147483648 0)
     = Inr [[- 2147482648, 1000, - 2147482648]] \<and>
   map_sum id (map ring_inv) (aggregator_new layout_int env_1000 [] 2147483648 0)
     = Inr [False] \<and>
   aggregator_new layout_int env_1000 [] 10 20 = Inr [agg_1000] \<and>
   ring_inv agg_1000 \<and>
   aggregator_putmetric layout_int atof_integral agg_1000
       (''m 21474837470 21474837470'' @ nl) = Inl OutOfBounds"
  by code_simp

section \<open>Samples older than the ring\<close>

text \<open>
  Where the number read after the first blank is below \<^verbatim>\<open>buckets[0]->start\<close> by at
  most \<open>2 ^ 63\<close>, the difference is a \<^verbatim>\<open>long long\<close>, the test \<^verbatim>\<open>epoch < 0\<close> succeeds and
  the line is counted as dropped.
\<close>

lemma putmetric_negative_offset:
  assumes "strchr metric CHR '' '' = Some v"
    and "nth_chk (buckets s) 0 = Inr b0" and "in_range c_llong (start b0)"
    and "atoll (tl v) < start b0" and "- (2 ^ 63) \<le> atoll (tl v) - start b0"
  shows "aggregator_putmetric lay atof s metric
     = Inr ([], s\<lparr>dropped := incr_size (dropped s)\<rparr>)"
proof -
  have v: "strchr v CHR '' '' = Some v" using assms(1) by (rule strchr_twice)
  have "in_range c_llong (atoll (tl v) - start b0)"
    using assms(4,5) atoll_range [of "tl v"] assms(3) by (simp add: in_range_def c_llong_def)
  then have sub: "c_sub c_llong (atoll (tl v)) c_llong (start b0) = Inr (atoll (tl v) - start b0)"
    using atoll_range [of "tl v"] assms(3) by (simp add: c_sub_llong)
  show ?thesis
    using assms(1,2,4) v sub by (simp add: aggregator_putmetric_def Let_def)
qed

text \<open>
  C4. The claim: for every sample whose epoch is less than \<^verbatim>\<open>buckets[0]->start\<close>,
  \<^verbatim>\<open>dropped\<close> is incremented once and every bucket and \<^verbatim>\<open>received\<close> stay as they
  are. The function's comment says the same: a metric whose epoch is too old is
  rejected. The code does not do this, in two ways. The line \<^verbatim>\<open>m 995 0\<close> carries the
  epoch 0, older than the ring of \<open>agg_1000\<close>, which starts at 990; the code reads the
  epoch from the value token (see C1), finds 995, stores the sample in the oldest
  bucket and counts it as received. The line
  \<^verbatim>\<open>m -9223372036854775808 -9223372036854775808\<close> carries the epoch \<open>- 2 ^ 63\<close> in both
  tokens; the subtraction \<^verbatim>\<open>epoch -= s->buckets[0]->start\<close> overflows \<^verbatim>\<open>long long\<close>
  before the test \<^verbatim>\<open>epoch < 0\<close>, which is undefined behaviour instead of a drop.
\<close>

theorem putmetric_too_old_not_dropped:
  "atoll (''0'' @ nl) = 0 \<and> 0 < start (buckets agg_1000 ! 0) \<and>
   aggregator_putmetric layout_int atof_integral agg_1000 (''m 995 0'' @ nl)
     = Inr ([], agg_1000\<lparr>received := 1,
          buckets := (buckets agg_1000)
            [0 := \<lparr>start = 990, cnt = 1, sum_f = 995, max_f = 995, min_f = 995\<rparr>]\<rparr>) \<and>
   atoll (''-9223372036854775808'' @ nl) = - 9223372036854775808 \<and>
   atoll (''-9223372036854775808 -9223372036854775808'' @ nl) = - 9223372036854775808 \<and>
   - 9223372036854775808 < start (buckets agg_1000 ! 0) \<and>
   aggregator_putmetric layout_int atof_integral agg_1000
       (''m -9223372036854775808 -9223372036854775808'' @ nl)
     = Inl SignedOverflow"
  by code_simp

section \<open>What a rotation leaves in the recycled bucket\<close>

lemma rotate_cells:
  assumes r: "rotate lay s b = Inr s'"
  shows "\<exists>st. 2 \<le> bucketcnt s \<and> bucketcnt s \<le> int (length (buckets s)) \<and>
     c_add c_llong (start (buckets s ! (nat (bucketcnt s) - 1))) (interval_t lay) (interval s)
       = Inr st \<and>
     s' = s\<lparr>sent := incr_size (sent s),
            buckets := take (nat (bucketcnt s) - 1) (tl (buckets s)) @
              [b\<lparr>cnt := 0, start := conv c_llong st\<rparr>] @
              drop (nat (bucketcnt s)) (buckets s)\<rparr>"
proof -
  let ?n = "bucketcnt s" and ?bs = "buckets s"
  let ?moved = "take (nat ?n - 1) (drop 1 ?bs) @ drop (nat ?n - 1) ?bs"
  from r have n1: "1 \<le> ?n" and len: "?n \<le> int (length ?bs)"
    by (auto simp: rotate_def Let_def split: if_splits)
  from r n1 len obtain prev st where prev: "nth_chk ?moved (?n - 2) = Inr prev"
    and st: "c_add c_llong (start prev) (interval_t lay) (interval s) = Inr st"
    and s': "s' = s\<lparr>sent := incr_size (sent s),
        buckets := ?moved[nat ?n - 1 := b\<lparr>cnt := 0, start := conv c_llong st\<rparr>]\<rparr>"
    by (auto simp: rotate_def Let_def split: if_splits sum.splits)
  from prev have n2: "2 \<le> ?n" by (auto simp: nth_chk_def split: if_splits)
  have lt: "length (take (nat ?n - 1) (drop 1 ?bs)) = nat ?n - 1"
    using len n1 by simp
  have p: "prev = ?bs ! (nat ?n - 1)"
  proof -
    have i: "nat (?n - 2) < nat ?n - 1" using n2 by simp
    from prev have "prev = ?moved ! nat (?n - 2)" by (auto simp: nth_chk_def split: if_splits)
    also have "\<dots> = take (nat ?n - 1) (drop 1 ?bs) ! nat (?n - 2)"
      using i lt by (simp add: nth_append)
    also have "\<dots> = drop 1 ?bs ! nat (?n - 2)" using i by simp
    also have "\<dots> = ?bs ! (1 + nat (?n - 2))" using len n2 by (intro nth_drop) simp
    also have "1 + nat (?n - 2) = nat ?n - 1" using n2 by simp
    finally show ?thesis .
  qed
  have d: "drop (nat ?n - 1) ?bs = ?bs ! (nat ?n - 1) # drop (nat ?n) ?bs"
  proof -
    have "nat ?n - 1 < length ?bs" using len n1 by simp
    then have "drop (nat ?n - 1) ?bs = ?bs ! (nat ?n - 1) # drop (Suc (nat ?n - 1)) ?bs"
      by (rule Cons_nth_drop_Suc [symmetric])
    moreover have "Suc (nat ?n - 1) = nat ?n" using n1 by simp
    ultimately show ?thesis by simp
  qed
  have upd: "?moved[nat ?n - 1 := x]
      = take (nat ?n - 1) (tl ?bs) @ [x] @ drop (nat ?n) ?bs" for x
    using lt d by (simp add: list_update_append drop_Suc)
  show ?thesis using n2 len st s' p upd by simp
qed

text \<open>
  C10. The rotation of the sweeper resets \<^verbatim>\<open>cnt\<close> to 0 and sets \<^verbatim>\<open>start\<close> of the
  recycled bucket and leaves its \<^verbatim>\<open>sum\<close>, \<^verbatim>\<open>min\<close> and \<^verbatim>\<open>max\<close> as they were; every
  other bucket moves one cell down unchanged and only \<^verbatim>\<open>sent\<close> changes besides. So
  the lines printed for the recycled bucket while its count is still 0 carry the sum,
  maximum and minimum of the window it held before, and the average is that sum
  divided by \<^verbatim>\<open>(double)0\<close>.
\<close>

theorem rotate_frame:
  assumes "rotate lay s b = Inr s'"
  shows "2 \<le> bucketcnt s \<and> bucketcnt s \<le> int (length (buckets s)) \<and>
     s' = s\<lparr>sent := incr_size (sent s),
            buckets := take (nat (bucketcnt s) - 1) (tl (buckets s)) @
              [b\<lparr>cnt := 0, start := start (buckets s' ! (nat (bucketcnt s) - 1))\<rparr>] @
              drop (nat (bucketcnt s)) (buckets s)\<rparr> \<and>
     cnt (buckets s' ! (nat (bucketcnt s) - 1)) = 0 \<and>
     sum_f (buckets s' ! (nat (bucketcnt s) - 1)) = sum_f b \<and>
     max_f (buckets s' ! (nat (bucketcnt s) - 1)) = max_f b \<and>
     min_f (buckets s' ! (nat (bucketcnt s) - 1)) = min_f b \<and>
     emit dbl t (buckets s' ! (nat (bucketcnt s) - 1)) \<lparr>type_c = SUM_c, metric_c = m\<rparr>
       = \<lparr>l_metric = m, l_value = Dbl (sum_f b), l_stamp = t\<rparr> \<and>
     emit dbl t (buckets s' ! (nat (bucketcnt s) - 1)) \<lparr>type_c = CNT_c, metric_c = m\<rparr>
       = \<lparr>l_metric = m, l_value = Size 0, l_stamp = t\<rparr> \<and>
     emit dbl t (buckets s' ! (nat (bucketcnt s) - 1)) \<lparr>type_c = MAX_c, metric_c = m\<rparr>
       = \<lparr>l_metric = m, l_value = Dbl (max_f b), l_stamp = t\<rparr> \<and>
     emit dbl t (buckets s' ! (nat (bucketcnt s) - 1)) \<lparr>type_c = MIN_c, metric_c = m\<rparr>
       = \<lparr>l_metric = m, l_value = Dbl (min_f b), l_stamp = t\<rparr> \<and>
     emit dbl t (buckets s' ! (nat (bucketcnt s) - 1)) \<lparr>type_c = AVG_c, metric_c = m\<rparr>
       = \<lparr>l_metric = m, l_value = Dbl (sum_f b / dbl 0), l_stamp = t\<rparr>"
proof -
  let ?n = "nat (bucketcnt s)" and ?bs = "buckets s"
  from rotate_cells [OF assms] obtain st where
    n2: "2 \<le> bucketcnt s" and len: "bucketcnt s \<le> int (length ?bs)"
    and s': "s' = s\<lparr>sent := incr_size (sent s),
            buckets := take (?n - 1) (tl ?bs) @ [b\<lparr>cnt := 0, start := conv c_llong st\<rparr>] @
              drop ?n ?bs\<rparr>"
    by blast
  have "length (take (?n - 1) (tl ?bs)) = ?n - 1" using len n2 by simp
  then have cell: "buckets s' ! (?n - 1) = b\<lparr>cnt := 0, start := conv c_llong st\<rparr>"
    using s' by (simp add: nth_append)
  have st: "start (buckets s' ! (?n - 1)) = conv c_llong st" using cell by simp
  show ?thesis
    unfolding st using n2 len s' cell by (simp add: emit_def)
qed

text \<open>
  The aggregator \<open>agg_995\<close> holds one sample of value 995 in its oldest window. The
  rotation leaves 995 in the recycled bucket, and the sweeper at time 1071 prints it
  a second time, for the window ending at 1050 that received nothing.
\<close>

theorem rotate_frame_witness:
  "rotate layout_int agg_995 \<lparr>start = 990, cnt = 1, sum_f = 995, max_f = 995, min_f = 995\<rparr>
     = Inr (agg_995\<lparr>sent := 1,
          buckets := [blank\<lparr>start := 1000\<rparr>, blank\<lparr>start := 1010\<rparr>, blank\<lparr>start := 1020\<rparr>,
            blank\<lparr>start := 1030\<rparr>,
            \<lparr>start = 1040, cnt = 0, sum_f = 995, max_f = 995, min_f = 995\<rparr>]\<rparr>) \<and>
   emit of_int 1050
       (buckets (agg_995\<lparr>sent := 1,
          buckets := [blank\<lparr>start := 1000\<rparr>, blank\<lparr>start := 1010\<rparr>, blank\<lparr>start := 1020\<rparr>,
            blank\<lparr>start := 1030\<rparr>,
            \<lparr>start = 1040, cnt = 0, sum_f = 995, max_f = 995, min_f = 995\<rparr>]\<rparr>)
          ! (nat (bucketcnt agg_995) - 1))
       \<lparr>type_c = SUM_c, metric_c = ''sum''\<rparr>
     = \<lparr>l_metric = ''sum'', l_value = Dbl 995, l_stamp = 1050\<rparr> \<and>
   map_option (map_sum id (map l_value \<circ> fst)) (expire_windows layout_int of_int 1071 agg_995 [])
     = Some (Inr [Dbl 995, Dbl 0, Dbl 0, Dbl 0, Dbl 0, Dbl 995])"
proof -
  have h: "rotate layout_int agg_995
       \<lparr>start = 990, cnt = 1, sum_f = 995, max_f = 995, min_f = 995\<rparr>
     = Inr (agg_995\<lparr>sent := 1,
          buckets := [blank\<lparr>start := 1000\<rparr>, blank\<lparr>start := 1010\<rparr>, blank\<lparr>start := 1020\<rparr>,
            blank\<lparr>start := 1030\<rparr>,
            \<lparr>start = 1040, cnt = 0, sum_f = 995, max_f = 995, min_f = 995\<rparr>]\<rparr>)"
    by code_simp
  have run: "map_option (map_sum id (map l_value \<circ> fst))
       (expire_windows layout_int of_int 1071 agg_995 [])
     = Some (Inr [Dbl 995, Dbl 0, Dbl 0, Dbl 0, Dbl 0, Dbl 995])"
    by code_simp
  from rotate_frame [OF h, of of_int 1050 "''sum''"]
  have "emit of_int 1050
       (buckets (agg_995\<lparr>sent := 1,
          buckets := [blank\<lparr>start := 1000\<rparr>, blank\<lparr>start := 1010\<rparr>, blank\<lparr>start := 1020\<rparr>,
            blank\<lparr>start := 1030\<rparr>,
            \<lparr>start = 1040, cnt = 0, sum_f = 995, max_f = 995, min_f = 995\<rparr>]\<rparr>)
          ! (nat (bucketcnt agg_995) - 1))
       \<lparr>type_c = SUM_c, metric_c = ''sum''\<rparr>
     = \<lparr>l_metric = ''sum'',
        l_value = Dbl (sum_f \<lparr>start = 990, cnt = 1, sum_f = 995 :: rat, max_f = 995, min_f = 995\<rparr>),
        l_stamp = 1050\<rparr>"
    by blast
  then have "emit of_int 1050
       (buckets (agg_995\<lparr>sent := 1,
          buckets := [blank\<lparr>start := 1000\<rparr>, blank\<lparr>start := 1010\<rparr>, blank\<lparr>start := 1020\<rparr>,
            blank\<lparr>start := 1030\<rparr>,
            \<lparr>start = 1040, cnt = 0, sum_f = 995, max_f = 995, min_f = 995\<rparr>]\<rparr>)
          ! (nat (bucketcnt agg_995) - 1))
       \<lparr>type_c = SUM_c, metric_c = ''sum''\<rparr>
     = \<lparr>l_metric = ''sum'', l_value = Dbl 995, l_stamp = 1050\<rparr>"
    by (simp only: bucket.simps)
  with h run show ?thesis by blast
qed

section \<open>The sweeper\<close>

lemma l_stamp_emit: "l_stamp (emit dbl stamp b c) = stamp"
  by (cases "type_c c") (simp_all add: emit_def)

lemma rotate_expire: "rotate lay s b = Inr s' \<Longrightarrow> expire s' = expire s \<and> interval s' = interval s \<and> computes s' = computes s \<and> bucketcnt s' = bucketcnt s"
  by (auto simp: rotate_def Let_def split: if_splits sum.splits)

lemma expire_windows_safe:
  assumes "expire_windows lay dbl now s out = Some y"
  shows "\<forall>res s'. y = Inr (res, s') \<longrightarrow>
     (\<exists>new limit. res = out @ new \<and>
        c_sub c_llong now (expire_t lay) (expire s) = Inr limit \<and>
        (\<forall>l\<in>set new. c_less (stamp_t lay) (l_stamp l) (limit_t lay) limit) \<and>
        closing lay now s' = Some False)"
  using assms
proof (induction lay dbl now s out y
    rule: expire_windows.raw_induct [rotated 1, consumes 1, case_names step])
  case (step ew lay dbl now s out y)
  show ?case
  proof (intro allI impI)
    fix res s' assume y: "y = Inr (res, s')"
    from step(2) y obtain b stamp limit where
      b: "nth_chk (buckets s) 0 = Inr b"
      and stamp: "c_add c_llong (start b) (interval_t lay) (interval s) = Inr stamp"
      and limit: "c_sub c_llong now (expire_t lay) (expire s) = Inr limit"
      by (auto split: sum.splits)
    show "\<exists>new limit. res = out @ new \<and>
        c_sub c_llong now (expire_t lay) (expire s) = Inr limit \<and>
        (\<forall>l\<in>set new. c_less (stamp_t lay) (l_stamp l) (limit_t lay) limit) \<and>
        closing lay now s' = Some False"
    proof (cases "c_less (stamp_t lay) stamp (limit_t lay) limit")
      case False
      with step(2) y b stamp limit have "res = out" "s' = s" by simp_all
      moreover have "closing lay now s = Some False"
        using b stamp limit False by (simp add: closing_def)
      ultimately show ?thesis using limit by simp
    next
      case True
      with step(2) y b stamp limit obtain s1 where
        rot: "rotate lay s b = Inr s1"
        and rec: "ew lay dbl now s1 (out @ map (emit dbl stamp b) (computes s)) = Some y"
        by (auto split: sum.splits)
      from rotate_expire [OF rot] have e1: "expire s1 = expire s" by simp
      from step(1) [OF rec] y obtain new where
        res: "res = (out @ map (emit dbl stamp b) (computes s)) @ new"
        and safe: "\<forall>l\<in>set new. c_less (stamp_t lay) (l_stamp l) (limit_t lay) limit"
        and fin: "closing lay now s' = Some False"
        using limit e1 by auto
      have "\<forall>l\<in>set (map (emit dbl stamp b) (computes s) @ new).
          c_less (stamp_t lay) (l_stamp l) (limit_t lay) limit"
        using safe True by (auto simp: l_stamp_emit)
      with res fin limit show ?thesis by auto
    qed
  qed
qed

lemma spaced_last: "spaced d xs \<Longrightarrow> xs \<noteq> [] \<Longrightarrow> last xs = hd xs + (int (length xs) - 1) * d"
proof -
  assume sp: "spaced d xs" and ne: "xs \<noteq> []"
  then have "xs ! (length xs - 1) = hd xs + int (length xs - 1) * d"
    by (intro spaced_nth) simp_all
  moreover have "int (length xs - 1) = int (length xs) - 1" using ne by (cases xs) simp_all
  ultimately show ?thesis using ne by (simp add: last_conv_nth)
qed

lemma expire_windows_total:
  assumes lay: "wf_layout lay"
    and now: "in_range c_llong now" "in_range c_llong (now - expire s)"
    and wf: "wf_aggregator lay s" and ring: "ring_inv s" and n2: "2 \<le> bucketcnt s"
    and room: "now - expire s + bucketcnt s * interval s < 9223372036854775808"
    and head: "start (hd (buckets s)) + interval s < 9223372036854775808"
  shows "\<exists>new s'. expire_windows lay dbl now s out = Some (Inr (out @ new, s')) \<and>
     (\<forall>l\<in>set new. start (hd (buckets s)) + interval s \<le> l_stamp l \<and>
        l_stamp l < now - expire s) \<and>
     sorted (map l_stamp new) \<and>
     now - expire s \<le> start (hd (buckets s')) + interval s \<and>
     wf_aggregator lay s' \<and> ring_inv s' \<and>
     interval s' = interval s \<and> expire s' = expire s \<and> bucketcnt s' = bucketcnt s"
  using now(2) wf ring n2 room head
proof (induction "nat (now - expire s - (start (hd (buckets s)) + interval s))"
    arbitrary: s out rule: less_induct)
  case less
  let ?bs = "buckets s" and ?d = "interval s" and ?T = "now - expire s"
  note wf = \<open>wf_aggregator lay s\<close>
  have len: "int (length ?bs) = bucketcnt s" using wf by (simp add: wf_aggregator_def)
  then obtain x y ys where bs: "?bs = x # y # ys"
    using less.prems(4) by (cases ?bs; cases "tl ?bs") auto
  have d: "0 < ?d" "in_range (interval_t lay) ?d" "in_range (expire_t lay) (expire s)"
    using wf by (simp_all add: wf_aggregator_def)
  have types: "narrow (interval_t lay)" "narrow (expire_t lay)"
    using lay by (simp_all add: wf_layout_def)
  have rx: "in_range c_llong (start x)"
    using wf bs by (simp add: wf_aggregator_def)
  have b: "nth_chk ?bs 0 = Inr x" using bs by (simp add: nth_chk_def)
  have stamp_rng: "in_range c_llong (start x + ?d)"
    using rx d(1) less.prems(6) bs by (simp add: in_range_def c_llong_def)
  have stamp: "c_add c_llong (start x) (interval_t lay) ?d = Inr (start x + ?d)"
    using types d rx stamp_rng by (simp add: c_add_llong_narrow)
  have limit: "c_sub c_llong now (expire_t lay) (expire s) = Inr ?T"
    using types d now(1) less.prems(1) by (simp add: c_sub_llong_narrow)
  have cmp: "c_less (stamp_t lay) (start x + ?d) (limit_t lay) ?T = (start x + ?d < ?T)"
    using types stamp_rng less.prems(1)
    by (simp add: stamp_t_def limit_t_def common_llong_narrow c_less_llong)
  show ?case
  proof (cases "start x + ?d < ?T")
    case False
    then have "expire_windows lay dbl now s out = Some (Inr (out, s))"
      using b stamp limit cmp by (subst expire_windows.simps) simp
    moreover have "?T \<le> start (hd ?bs) + ?d" using False bs by simp
    ultimately show ?thesis using wf less.prems(3) by simp
  next
    case True
    have lst: "start (last ?bs) = start x + (bucketcnt s - 1) * ?d"
    proof -
      have sp: "spaced ?d (map start ?bs)" using less.prems(3) by (simp add: ring_inv_def)
      have ne: "map start ?bs \<noteq> []" using bs by simp
      have "last (map start ?bs) = hd (map start ?bs) + (int (length (map start ?bs)) - 1) * ?d"
        using sp ne by (rule spaced_last)
      moreover have "last (map start ?bs) = start (last ?bs)"
        by (rule last_map) (use bs in simp)
      moreover have "hd (map start ?bs) = start x" using bs by simp
      moreover have "int (length (map start ?bs)) = bucketcnt s" using len by simp
      ultimately show ?thesis by (simp only:)
    qed
    have new_rng: "in_range c_llong (start (last ?bs) + ?d)"
    proof -
      have "start (last ?bs) + ?d = start x + ?d + (bucketcnt s - 1) * ?d"
        using lst by (simp add: algebra_simps)
      moreover have "0 \<le> (bucketcnt s - 1) * ?d" using less.prems(4) d(1) by simp
      moreover have "?T + (bucketcnt s - 1) * ?d \<le> ?T + bucketcnt s * ?d"
        using d(1) by (simp add: algebra_simps)
      ultimately show ?thesis
        using True stamp_rng less.prems(5) by (simp add: in_range_def c_llong_def)
    qed
    let ?s1 = "s\<lparr>sent := incr_size (sent s),
        buckets := tl ?bs @ [x\<lparr>cnt := 0, start := start (last ?bs) + ?d\<rparr>]\<rparr>"
    have rot: "rotate lay s x = Inr ?s1"
      using rotate_value [OF lay wf less.prems(4), of x] new_rng by simp
    from rotate_ring_inv [OF lay wf less.prems(3) rot]
    have inv1: "ring_inv ?s1" "wf_aggregator lay ?s1" by simp_all
    have y: "start y = start x + ?d"
      using less.prems(3) bs by (auto simp: ring_inv_def)
    have hd1: "hd (buckets ?s1) = y" using bs by simp
    let ?lines = "map (emit dbl (start x + ?d) x) (computes s)"
    have step: "expire_windows lay dbl now s out = expire_windows lay dbl now ?s1 (out @ ?lines)"
      using b stamp limit cmp True rot by (subst expire_windows.simps) simp
    have "\<exists>new s'. expire_windows lay dbl now ?s1 (out @ ?lines)
         = Some (Inr ((out @ ?lines) @ new, s')) \<and>
       (\<forall>l\<in>set new. start (hd (buckets ?s1)) + interval ?s1 \<le> l_stamp l \<and>
          l_stamp l < now - expire ?s1) \<and>
       sorted (map l_stamp new) \<and>
       now - expire ?s1 \<le> start (hd (buckets s')) + interval ?s1 \<and>
       wf_aggregator lay s' \<and> ring_inv s' \<and>
       interval s' = interval ?s1 \<and> expire s' = expire ?s1 \<and> bucketcnt s' = bucketcnt ?s1"
    proof (rule less.hyps)
      show "nat (now - expire ?s1 - (start (hd (buckets ?s1)) + interval ?s1))
          < nat (now - expire s - (start (hd ?bs) + ?d))"
        using True d(1) bs y hd1 by simp
      show "in_range c_llong (now - expire ?s1)" using less.prems(1) by simp
      show "wf_aggregator lay ?s1" by (rule inv1)
      show "ring_inv ?s1" by (rule inv1)
      show "2 \<le> bucketcnt ?s1" using less.prems(4) by simp
      show "now - expire ?s1 + bucketcnt ?s1 * interval ?s1 < 9223372036854775808"
        using less.prems(5) by simp
      have "?d \<le> bucketcnt s * ?d" using less.prems(4) d(1) by simp
      then show "start (hd (buckets ?s1)) + interval ?s1 < 9223372036854775808"
        using True y hd1 less.prems(5) by simp
    qed
    then obtain new s' where
      run: "expire_windows lay dbl now ?s1 (out @ ?lines) = Some (Inr ((out @ ?lines) @ new, s'))"
      and st: "\<forall>l\<in>set new. start y + ?d \<le> l_stamp l \<and> l_stamp l < ?T"
      and so: "sorted (map l_stamp new)"
      and fin: "?T \<le> start (hd (buckets s')) + ?d"
      and inv': "wf_aggregator lay s'" "ring_inv s'"
      and same: "interval s' = ?d" "expire s' = expire s" "bucketcnt s' = bucketcnt s"
      using hd1 by auto
    have l1: "\<forall>l\<in>set ?lines. l_stamp l = start x + ?d" by (simp add: l_stamp_emit)
    have "\<forall>l\<in>set (?lines @ new). start (hd ?bs) + ?d \<le> l_stamp l \<and> l_stamp l < ?T"
      using l1 st True y d(1) bs by auto
    moreover have "sorted (map l_stamp (?lines @ new))"
    proof -
      have "sorted (map l_stamp ?lines)"
        using l1 by (simp add: sorted_iff_nth_mono l_stamp_emit)
      moreover have "\<forall>a\<in>set (map l_stamp ?lines). \<forall>c\<in>set (map l_stamp new). a \<le> c"
        using l1 st y d(1) by auto
      ultimately show ?thesis using so by (simp add: sorted_append)
    qed
    ultimately show ?thesis
      using step run fin inv' same by (intro exI [of _ "?lines @ new"] exI [of _ s']) simp
  qed
qed

text \<open>
  One turn of the loop on a ring that satisfies the invariant, and the turn in which
  the loop prints bucket \<open>k\<close>: after the \<open>k\<close> windows before it.
\<close>

lemma expire_windows_step:
  assumes lay: "wf_layout lay"
    and now: "in_range c_llong now" "in_range c_llong (now - expire s)"
    and wf: "wf_aggregator lay s" and ring: "ring_inv s" and n2: "2 \<le> bucketcnt s"
    and room: "now - expire s + bucketcnt s * interval s < 9223372036854775808"
    and due: "start (hd (buckets s)) + interval s < now - expire s"
  shows "\<exists>s1. expire_windows lay dbl now s out
       = expire_windows lay dbl now s1
           (out @ map (emit dbl (start (hd (buckets s)) + interval s) (hd (buckets s)))
              (computes s)) \<and>
     wf_aggregator lay s1 \<and> ring_inv s1 \<and> interval s1 = interval s \<and>
     expire s1 = expire s \<and> bucketcnt s1 = bucketcnt s \<and> computes s1 = computes s \<and>
     length (buckets s1) = length (buckets s) \<and>
     (\<forall>j. Suc j < length (buckets s) \<longrightarrow> buckets s1 ! j = buckets s ! Suc j)"
proof -
  let ?bs = "buckets s" and ?d = "interval s" and ?T = "now - expire s"
  have len: "int (length ?bs) = bucketcnt s" using wf by (simp add: wf_aggregator_def)
  then obtain x y ys where bs: "?bs = x # y # ys"
    using n2 by (cases ?bs; cases "tl ?bs") auto
  have d: "0 < ?d" "in_range (interval_t lay) ?d" "in_range (expire_t lay) (expire s)"
    using wf by (simp_all add: wf_aggregator_def)
  have types: "narrow (interval_t lay)" "narrow (expire_t lay)"
    using lay by (simp_all add: wf_layout_def)
  have rx: "in_range c_llong (start x)"
    using wf bs by (simp add: wf_aggregator_def)
  have b: "nth_chk ?bs 0 = Inr x" using bs by (simp add: nth_chk_def)
  have True: "start x + ?d < ?T" using due bs by simp
  have stamp_rng: "in_range c_llong (start x + ?d)"
    using rx d(1) True now(2) by (simp add: in_range_def c_llong_def)
  have stamp: "c_add c_llong (start x) (interval_t lay) ?d = Inr (start x + ?d)"
    using types d rx stamp_rng by (simp add: c_add_llong_narrow)
  have limit: "c_sub c_llong now (expire_t lay) (expire s) = Inr ?T"
    using types d now by (simp add: c_sub_llong_narrow)
  have cmp: "c_less (stamp_t lay) (start x + ?d) (limit_t lay) ?T = (start x + ?d < ?T)"
    using types stamp_rng now(2)
    by (simp add: stamp_t_def limit_t_def common_llong_narrow c_less_llong)
  have lst: "start (last ?bs) = start x + (bucketcnt s - 1) * ?d"
  proof -
    have sp: "spaced ?d (map start ?bs)" using ring by (simp add: ring_inv_def)
    have ne: "map start ?bs \<noteq> []" using bs by simp
    have "last (map start ?bs) = hd (map start ?bs) + (int (length (map start ?bs)) - 1) * ?d"
      using sp ne by (rule spaced_last)
    moreover have "last (map start ?bs) = start (last ?bs)"
      by (rule last_map) (use bs in simp)
    moreover have "hd (map start ?bs) = start x" using bs by simp
    moreover have "int (length (map start ?bs)) = bucketcnt s" using len by simp
    ultimately show ?thesis by (simp only:)
  qed
  have new_rng: "in_range c_llong (start (last ?bs) + ?d)"
  proof -
    have "start (last ?bs) + ?d = start x + ?d + (bucketcnt s - 1) * ?d"
      using lst by (simp add: algebra_simps)
    moreover have "0 \<le> (bucketcnt s - 1) * ?d" using n2 d(1) by simp
    moreover have "?T + (bucketcnt s - 1) * ?d \<le> ?T + bucketcnt s * ?d"
      using d(1) by (simp add: algebra_simps)
    ultimately show ?thesis
      using True stamp_rng room by (simp add: in_range_def c_llong_def)
  qed
  let ?s1 = "s\<lparr>sent := incr_size (sent s),
      buckets := tl ?bs @ [x\<lparr>cnt := 0, start := start (last ?bs) + ?d\<rparr>]\<rparr>"
  have rot: "rotate lay s x = Inr ?s1"
    using rotate_value [OF lay wf n2, of x] new_rng by simp
  from rotate_ring_inv [OF lay wf ring rot]
  have inv1: "ring_inv ?s1" "wf_aggregator lay ?s1" by simp_all
  have step: "expire_windows lay dbl now s out
      = expire_windows lay dbl now ?s1 (out @ map (emit dbl (start x + ?d) x) (computes s))"
    using b stamp limit cmp True rot by (subst expire_windows.simps) simp
  have cells: "\<forall>j. Suc j < length ?bs \<longrightarrow> buckets ?s1 ! j = ?bs ! Suc j"
  proof (intro allI impI)
    fix j assume j: "Suc j < length ?bs"
    then have jt: "j < length (tl ?bs)" by simp
    have "buckets ?s1 ! j = tl ?bs ! j" using jt by (simp add: nth_append)
    also have "\<dots> = ?bs ! Suc j" using jt by (rule nth_tl)
    finally show "buckets ?s1 ! j = ?bs ! Suc j" .
  qed
  show ?thesis
    using step inv1 cells bs by (intro exI [of _ ?s1]) simp
qed

lemma expire_windows_reaches:
  assumes lay: "wf_layout lay" and now: "in_range c_llong now"
  shows "in_range c_llong (now - expire s) \<Longrightarrow> wf_aggregator lay s \<Longrightarrow> ring_inv s \<Longrightarrow>
     2 \<le> bucketcnt s \<Longrightarrow>
     now - expire s + bucketcnt s * interval s < 9223372036854775808 \<Longrightarrow>
     k < length (buckets s) \<Longrightarrow>
     start (buckets s ! k) + interval s < now - expire s \<Longrightarrow>
     \<exists>pre rest t. expire_windows lay dbl now s out
        = Some (Inr (out @ pre @
            map (emit dbl (start (buckets s ! k) + interval s) (buckets s ! k)) (computes s)
            @ rest, t)) \<and>
       length pre = k * length (computes s)"
proof (induction k arbitrary: s out)
  case 0
  let ?bs = "buckets s" and ?d = "interval s" and ?T = "now - expire s"
  have hd0: "hd ?bs = ?bs ! 0" using "0.prems"(6) by (simp add: hd_conv_nth)
  have due: "start (hd ?bs) + ?d < ?T" using "0.prems"(7) hd0 by simp
  have d: "0 < ?d" using "0.prems"(2) by (simp add: wf_aggregator_def)
  have len: "int (length ?bs) = bucketcnt s" using "0.prems"(2) by (simp add: wf_aggregator_def)
  let ?lines = "map (emit dbl (start (hd ?bs) + ?d) (hd ?bs)) (computes s)"
  from expire_windows_step [OF lay now "0.prems"(1,2,3,4,5) due, of dbl out]
  obtain s1 where step: "expire_windows lay dbl now s out
       = expire_windows lay dbl now s1 (out @ ?lines)"
    and wf1: "wf_aggregator lay s1" and ring1: "ring_inv s1"
    and same: "interval s1 = ?d" "expire s1 = expire s" "bucketcnt s1 = bucketcnt s"
    and len1: "length (buckets s1) = length ?bs"
    and cells: "\<forall>j. Suc j < length ?bs \<longrightarrow> buckets s1 ! j = ?bs ! Suc j"
    by blast
  have sp: "spaced ?d (map start ?bs)" using "0.prems"(3) by (simp add: ring_inv_def)
  have two: "Suc 0 < length ?bs" using "0.prems"(4) len by simp
  have "map start ?bs ! 1 = hd (map start ?bs) + int 1 * ?d"
    using sp two by (intro spaced_nth) simp_all
  moreover have "hd (map start ?bs) = start (hd ?bs)"
    by (rule hd_map) (use two in auto)
  ultimately have s1hd: "start (?bs ! 1) = start (hd ?bs) + ?d"
    using two by simp
  have "buckets s1 \<noteq> []" using len1 two by auto
  then have "hd (buckets s1) = buckets s1 ! 0" by (rule hd_conv_nth)
  also have "\<dots> = ?bs ! 1" using cells two by simp
  finally have hd1: "start (hd (buckets s1)) = start (hd ?bs) + ?d" using s1hd by simp
  have "?d \<le> bucketcnt s * ?d" using "0.prems"(4) d by simp
  then have head1: "start (hd (buckets s1)) + interval s1 < 9223372036854775808"
    using hd1 same due "0.prems"(5) by simp
  from expire_windows_total [OF lay now, of s1 dbl "out @ ?lines"]
    "0.prems"(1,4,5) wf1 ring1 same head1
  obtain new t where "expire_windows lay dbl now s1 (out @ ?lines)
      = Some (Inr ((out @ ?lines) @ new, t))"
    by auto
  with step hd0 have "expire_windows lay dbl now s out
        = Some (Inr (out @ [] @
            map (emit dbl (start (?bs ! 0) + ?d) (?bs ! 0)) (computes s) @ new, t))"
    by simp
  then show ?case by (intro exI [of _ "[]"] exI [of _ new] exI [of _ t]) simp
next
  case (Suc k)
  let ?bs = "buckets s" and ?d = "interval s" and ?T = "now - expire s"
  have d: "0 < ?d" using Suc.prems(2) by (simp add: wf_aggregator_def)
  have ne: "?bs \<noteq> []" using Suc.prems(6) by auto
  have sp: "spaced ?d (map start ?bs)" using Suc.prems(3) by (simp add: ring_inv_def)
  have "map start ?bs ! Suc k = hd (map start ?bs) + int (Suc k) * ?d"
    using sp Suc.prems(6) by (intro spaced_nth) simp_all
  then have "start (?bs ! Suc k) = start (hd ?bs) + int (Suc k) * ?d"
    using Suc.prems(6) ne by (simp add: hd_map)
  moreover have "0 \<le> int (Suc k) * ?d" using d by simp
  ultimately have due: "start (hd ?bs) + ?d < ?T" using Suc.prems(7) by linarith
  let ?lines = "map (emit dbl (start (hd ?bs) + ?d) (hd ?bs)) (computes s)"
  from expire_windows_step [OF lay now Suc.prems(1,2,3,4,5) due, of dbl out]
  obtain s1 where step: "expire_windows lay dbl now s out
       = expire_windows lay dbl now s1 (out @ ?lines)"
    and wf1: "wf_aggregator lay s1" and ring1: "ring_inv s1"
    and same: "interval s1 = ?d" "expire s1 = expire s" "bucketcnt s1 = bucketcnt s"
      "computes s1 = computes s"
    and len1: "length (buckets s1) = length ?bs"
    and cells: "\<forall>j. Suc j < length ?bs \<longrightarrow> buckets s1 ! j = ?bs ! Suc j"
    by blast
  have cell: "buckets s1 ! k = ?bs ! Suc k" using cells Suc.prems(6) by simp
  have "\<exists>pre rest t. expire_windows lay dbl now s1 (out @ ?lines)
        = Some (Inr ((out @ ?lines) @ pre @
            map (emit dbl (start (buckets s1 ! k) + interval s1) (buckets s1 ! k)) (computes s1)
            @ rest, t)) \<and>
       length pre = k * length (computes s1)"
    using Suc.prems same wf1 ring1 len1 cell by (intro Suc.IH) simp_all
  then obtain pre rest t where run: "expire_windows lay dbl now s1 (out @ ?lines)
        = Some (Inr ((out @ ?lines) @ pre @
            map (emit dbl (start (?bs ! Suc k) + ?d) (?bs ! Suc k)) (computes s)
            @ rest, t))"
    and lp: "length pre = k * length (computes s)"
    using same cell by auto
  show ?case
    using step run lp
    by (intro exI [of _ "?lines @ pre"] exI [of _ rest] exI [of _ t]) simp
qed

text \<open>
  C7. The claim: the sweeper prints statistics for a bucket only after the test
  \<^verbatim>\<open>s->buckets[0]->start + s->interval < now - s->expire\<close> held for it, a window that
  has not expired is never printed, and within one aggregator all windows that satisfy
  the test are closed oldest first before the sweeper moves on. The first two parts
  hold for every run of the loop that returns: every line printed carries an epoch
  (the end of its window) below \<^verbatim>\<open>now - s->expire\<close>, and the run ends in a state where
  the test fails. The loop always closes \<^verbatim>\<open>buckets[0]\<close>, which is the oldest window
  only in a ring that satisfies the invariant. The claim as amended: the first two
  parts as stated; and for an aggregator whose ring satisfies the invariant (and whose
  times stay within \<^verbatim>\<open>long long\<close>) the loop returns, the windows are closed oldest
  first (the epochs printed ascend), and afterwards the oldest window left has not
  expired. \<^verbatim>\<open>aggregator_expire\<close> runs this loop to its end for one aggregator before
  it turns to the next.
\<close>

theorem sweeper_closes_expired_only:
  "(expire_windows lay dbl now s [] = Some (Inr (out, s')) \<longrightarrow>
      (\<exists>limit. c_sub c_llong now (expire_t lay) (expire s) = Inr limit \<and>
         (\<forall>l\<in>set out. c_less (stamp_t lay) (l_stamp l) (limit_t lay) limit) \<and>
         closing lay now s' = Some False)) \<and>
   (wf_layout lay \<and> in_range c_llong now \<and> in_range c_llong (now - expire s) \<and>
    wf_aggregator lay s \<and> ring_inv s \<and> 2 \<le> bucketcnt s \<and>
    now - expire s + bucketcnt s * interval s < 2 ^ 63 \<and>
    start (hd (buckets s)) + interval s < 2 ^ 63 \<longrightarrow>
      (\<exists>res t. expire_windows lay dbl now s [] = Some (Inr (res, t)) \<and>
         (\<forall>l\<in>set res. l_stamp l < now - expire s) \<and>
         sorted (map l_stamp res) \<and>
         now - expire s \<le> start (hd (buckets t)) + interval t \<and>
         wf_aggregator lay t \<and> ring_inv t))"
proof (intro conjI impI)
  assume "expire_windows lay dbl now s [] = Some (Inr (out, s'))"
  from expire_windows_safe [OF this]
  show "\<exists>limit. c_sub c_llong now (expire_t lay) (expire s) = Inr limit \<and>
         (\<forall>l\<in>set out. c_less (stamp_t lay) (l_stamp l) (limit_t lay) limit) \<and>
         closing lay now s' = Some False"
    by auto
next
  assume h: "wf_layout lay \<and> in_range c_llong now \<and> in_range c_llong (now - expire s) \<and>
    wf_aggregator lay s \<and> ring_inv s \<and> 2 \<le> bucketcnt s \<and>
    now - expire s + bucketcnt s * interval s < 2 ^ 63 \<and>
    start (hd (buckets s)) + interval s < 2 ^ 63"
  have "\<exists>new t. expire_windows lay dbl now s [] = Some (Inr ([] @ new, t)) \<and>
     (\<forall>l\<in>set new. start (hd (buckets s)) + interval s \<le> l_stamp l \<and>
        l_stamp l < now - expire s) \<and>
     sorted (map l_stamp new) \<and>
     now - expire s \<le> start (hd (buckets t)) + interval s \<and>
     wf_aggregator lay t \<and> ring_inv t \<and>
     interval t = interval s \<and> expire t = expire s \<and> bucketcnt t = bucketcnt s"
    by (rule expire_windows_total) (use h in simp_all)
  then obtain new t where
    "expire_windows lay dbl now s [] = Some (Inr (new, t))"
    "\<forall>l\<in>set new. l_stamp l < now - expire s" "sorted (map l_stamp new)"
    "now - expire s \<le> start (hd (buckets t)) + interval t"
    "wf_aggregator lay t" "ring_inv t"
    by auto
  then show "\<exists>res t. expire_windows lay dbl now s [] = Some (Inr (res, t)) \<and>
         (\<forall>l\<in>set res. l_stamp l < now - expire s) \<and>
         sorted (map l_stamp res) \<and>
         now - expire s \<le> start (hd (buckets t)) + interval t \<and>
         wf_aggregator lay t \<and> ring_inv t"
    by blast
qed

text \<open>
  At time 1031 the sweeper closes the windows of \<open>agg_995\<close> ending at 1000 and 1010
  and stops at the window ending at 1020.
\<close>

theorem sweeper_closes_expired_only_witness:
  "expire_windows layout_int of_int 1031 agg_995 []
     = Some (Inr ([\<lparr>l_metric = ''sum'', l_value = Dbl 995, l_stamp = 1000\<rparr>,
                   \<lparr>l_metric = ''sum'', l_value = Dbl 0, l_stamp = 1010\<rparr>],
          agg_995\<lparr>sent := 2,
            buckets := [blank\<lparr>start := 1010\<rparr>, blank\<lparr>start := 1020\<rparr>, blank\<lparr>start := 1030\<rparr>,
              \<lparr>start = 1040, cnt = 0, sum_f = 995, max_f = 995, min_f = 995\<rparr>,
              blank\<lparr>start := 1050\<rparr>]\<rparr>)) \<and>
   (\<exists>limit. c_sub c_llong 1031 (expire_t layout_int) (expire agg_995) = Inr limit \<and>
      (\<forall>l\<in>set [\<lparr>l_metric = ''sum'', l_value = Dbl (995 :: rat), l_stamp = 1000\<rparr>,
                  \<lparr>l_metric = ''sum'', l_value = Dbl 0, l_stamp = 1010\<rparr>].
         c_less (stamp_t layout_int) (l_stamp l) (limit_t layout_int) limit)) \<and>
   wf_layout layout_int \<and> in_range c_llong 1031 \<and> in_range c_llong (1031 - expire agg_995) \<and>
   wf_aggregator layout_int agg_995 \<and> ring_inv agg_995 \<and> 2 \<le> bucketcnt agg_995 \<and>
   1031 - expire agg_995 + bucketcnt agg_995 * interval agg_995 < 2 ^ 63 \<and>
   start (hd (buckets agg_995)) + interval agg_995 < 2 ^ 63 \<and>
   (\<exists>res t. expire_windows layout_int rat_of_int 1031 agg_995 [] = Some (Inr (res, t)) \<and>
      (\<forall>l\<in>set res. l_stamp l < 1031 - expire agg_995) \<and>
      sorted (map l_stamp res) \<and>
      1031 - expire agg_995 \<le> start (hd (buckets t)) + interval t \<and>
      wf_aggregator layout_int t \<and> ring_inv t)"
proof -
  have run: "expire_windows layout_int of_int 1031 agg_995 []
     = Some (Inr ([\<lparr>l_metric = ''sum'', l_value = Dbl 995, l_stamp = 1000\<rparr>,
                   \<lparr>l_metric = ''sum'', l_value = Dbl 0, l_stamp = 1010\<rparr>],
          agg_995\<lparr>sent := 2,
            buckets := [blank\<lparr>start := 1010\<rparr>, blank\<lparr>start := 1020\<rparr>, blank\<lparr>start := 1030\<rparr>,
              \<lparr>start = 1040, cnt = 0, sum_f = 995, max_f = 995, min_f = 995\<rparr>,
              blank\<lparr>start := 1050\<rparr>]\<rparr>))"
    by code_simp
  have h: "wf_layout layout_int" "in_range c_llong 1031" "in_range c_llong (1031 - expire agg_995)"
    "wf_aggregator layout_int agg_995" "ring_inv agg_995" "2 \<le> bucketcnt agg_995"
    "1031 - expire agg_995 + bucketcnt agg_995 * interval agg_995 < 2 ^ 63"
    "start (hd (buckets agg_995)) + interval agg_995 < 2 ^ 63"
    by code_simp+
  note inst = sweeper_closes_expired_only
    [where lay = layout_int and dbl = rat_of_int and now = 1031 and s = agg_995]
  from inst run have a: "\<exists>limit. c_sub c_llong 1031 (expire_t layout_int) (expire agg_995) = Inr limit \<and>
      (\<forall>l\<in>set [\<lparr>l_metric = ''sum'', l_value = Dbl (995 :: rat), l_stamp = 1000\<rparr>,
                  \<lparr>l_metric = ''sum'', l_value = Dbl 0, l_stamp = 1010\<rparr>].
         c_less (stamp_t layout_int) (l_stamp l) (limit_t layout_int) limit)"
    by blast
  from inst h have b: "\<exists>res t. expire_windows layout_int rat_of_int 1031 agg_995 [] = Some (Inr (res, t)) \<and>
      (\<forall>l\<in>set res. l_stamp l < 1031 - expire agg_995) \<and>
      sorted (map l_stamp res) \<and>
      1031 - expire agg_995 \<le> start (hd (buckets t)) + interval t \<and>
      wf_aggregator layout_int t \<and> ring_inv t"
    by blast
  from run a h b show ?thesis by blast
qed

section \<open>The statistics of a bucket\<close>

lemma bucket_add_first:
  "cnt b = 0 \<Longrightarrow> bucket_add b v = b\<lparr>cnt := 1, sum_f := v, max_f := v, min_f := v\<rparr>"
  by (simp add: bucket_add_def)

lemma putmetric_read_in_window:
  assumes lay: "wf_layout lay" and wf: "wf_aggregator lay s" and ring: "ring_inv s"
    and k: "k < length (buckets s)" and w: "read_in_window s k metric"
  shows "admitted lay s k metric"
proof -
  let ?bs = "buckets s" and ?d = "interval s" and ?n = "bucketcnt s"
  from w obtain v where v: "strchr metric CHR '' '' = Some v"
    and lo: "start (?bs ! k) \<le> atoll (tl v)" and hi: "atoll (tl v) < start (?bs ! k) + ?d"
    by (auto simp: read_in_window_def after_blank_def split: option.splits)
  have v2: "strchr v CHR '' '' = Some v" using v by (rule strchr_twice)
  let ?e = "atoll (tl v)"
  have len: "int (length ?bs) = ?n" and n: "?n < 2147483648"
    and d: "0 < ?d" "in_range (interval_t lay) ?d" and cn: "in_range (bucketcnt_t lay) ?n"
    using wf by (simp_all add: wf_aggregator_def)
  have types: "narrow (interval_t lay)" "narrow (bucketcnt_t lay)"
    using lay by (simp_all add: wf_layout_def)
  have ne: "?bs \<noteq> []" using k by auto
  have b0: "nth_chk ?bs 0 = Inr (?bs ! 0)" using ne by (simp add: nth_chk_def)
  have r0: "in_range c_llong (start (?bs ! 0))"
    using wf ne by (auto simp: wf_aggregator_def list_all_length)
  have sk: "start (?bs ! k) = start (?bs ! 0) + int k * ?d"
  proof -
    have "map start ?bs ! k = hd (map start ?bs) + int k * ?d"
      using ring k by (intro spaced_nth) (simp_all add: ring_inv_def)
    moreover have "hd (map start ?bs) = start (?bs ! 0)" using ne by (simp add: hd_map hd_conv_nth)
    ultimately show ?thesis using k by simp
  qed
  have dlt: "?d < 4294967296" using in_range_narrow_bounds [OF types(1) d(2)] by simp
  have klt: "int k < ?n" using k len by simp
  have off: "int k * ?d \<le> ?e - start (?bs ! 0)" "?e - start (?bs ! 0) < (int k + 1) * ?d"
    using lo hi sk by (simp_all add: algebra_simps)
  have big: "(int k + 1) * ?d \<le> 2147483648 * 4294967296"
    using klt n d(1) dlt by (intro mult_mono) simp_all
  have e_rng: "in_range c_llong (?e - start (?bs ! 0))" and e_nn: "0 \<le> ?e - start (?bs ! 0)"
  proof -
    have "0 \<le> int k * ?d" using d(1) by simp
    with off(1) show "0 \<le> ?e - start (?bs ! 0)" by linarith
    with off(2) big show "in_range c_llong (?e - start (?bs ! 0))"
      by (simp add: in_range_def c_llong_def)
  qed
  have sub: "c_sub c_llong ?e c_llong (start (?bs ! 0)) = Inr (?e - start (?bs ! 0))"
    using atoll_range [of "tl v"] r0 e_rng by (simp add: c_sub_llong)
  have quot: "(?e - start (?bs ! 0)) div ?d = int k"
    using d(1) off by (rule div_between)
  have dv: "c_div c_llong (?e - start (?bs ! 0)) (interval_t lay) ?d = Inr (int k)"
    using c_div_llong_narrow [OF types(1) d(2) d(1) e_nn e_rng] quot by simp
  have slot: "conv c_int (int k) = int k"
    using klt n by (intro conv_id) (simp_all add: in_range_def c_int_def)
  have less: "c_less c_int (int k) (bucketcnt_t lay) ?n"
    using c_less_int_narrow [OF types(2) cn, of "int k"] klt n by simp
  have cell: "nth_chk ?bs (int k) = Inr (?bs ! k)" using k by (simp add: nth_chk_def)
  have "after_blank metric = Some (tl v)" using v by (simp add: after_blank_def)
  then show ?thesis
    using b0 sub e_nn dv slot less k by (simp add: admitted_def slot_of_def Let_def)
qed

lemma start_bucket_add: "start (bucket_add b v) = start b"
  by (simp add: bucket_add_def Let_def)

lemma putmetric_admitted:
  fixes s :: "'v::{plus,ord} aggregator"
  assumes "admitted lay s k metric"
  shows "\<exists>tok. after_blank metric = Some tok \<and> k < length (buckets s) \<and>
     aggregator_putmetric lay atof s metric
       = Inr ([], s\<lparr>received := incr_size (received s),
            buckets := (buckets s)[k := bucket_add (buckets s ! k) (atof tok)]\<rparr>)"
proof -
  from assms obtain v b0 e q where v: "strchr metric CHR '' '' = Some v"
    and b0: "nth_chk (buckets s) 0 = Inr b0"
    and sub: "c_sub c_llong (atoll (tl v)) c_llong (start b0) = Inr e" and e: "\<not> e < 0"
    and dv: "c_div c_llong e (interval_t lay) (interval s) = Inr q"
    and less: "c_less c_int (conv c_int q) (bucketcnt_t lay) (bucketcnt s)"
    and slot: "0 \<le> conv c_int q" "conv c_int q < int (length (buckets s))"
      "k = nat (conv c_int q)"
    by (auto simp: admitted_def slot_of_def after_blank_def Let_def
        split: option.splits sum.splits if_splits)
  have v2: "strchr v CHR '' '' = Some v" using v by (rule strchr_twice)
  have cell: "nth_chk (buckets s) (conv c_int q) = Inr (buckets s ! k)"
    using slot by (simp add: nth_chk_def)
  have "aggregator_putmetric lay atof s metric
       = Inr ([], s\<lparr>received := incr_size (received s),
            buckets := (buckets s)[k := bucket_add (buckets s ! k) (atof (tl v))]\<rparr>)"
    using v v2 b0 sub e dv less cell slot(3)
    by (simp add: aggregator_putmetric_def Let_def)
  moreover have "after_blank metric = Some (tl v)" using v by (simp add: after_blank_def)
  moreover have "k < length (buckets s)" using slot by simp
  ultimately show ?thesis by simp
qed

lemma slot_of_frame:
  assumes "k < length (buckets s)"
  shows "slot_of lay (s\<lparr>received := r,
            buckets := (buckets s)[k := bucket_add (buckets s ! k) v]\<rparr>) metric
     = slot_of lay s metric"
proof -
  let ?bs = "buckets s"
  let ?bs' = "?bs[k := bucket_add (?bs ! k) v]"
  have ne: "?bs \<noteq> []" using assms by auto
  have "nth_chk ?bs' 0 = Inr (?bs' ! 0)" "nth_chk ?bs 0 = Inr (?bs ! 0)"
    using ne by (simp_all add: nth_chk_def)
  moreover have "start (?bs' ! 0) = start (?bs ! 0)"
    using assms by (cases k) (simp_all add: start_bucket_add)
  ultimately show ?thesis
    by (simp add: slot_of_def cong: option.case_cong sum.case_cong if_cong)
qed

lemma putmetrics_admitted:
  fixes s :: "'v::{plus,ord} aggregator"
  assumes "list_all (admitted lay s k) ms"
  shows "\<exists>r. putmetrics lay atof s ms
     = Inr (s\<lparr>received := r,
          buckets := (buckets s)[k := foldl bucket_add (buckets s ! k) (values_of atof ms)]\<rparr>) \<and>
     length (values_of atof ms) = length ms"
  using assms
proof (induction ms arbitrary: s)
  case Nil
  have "s = s\<lparr>received := received s\<rparr>" by simp
  then have "\<exists>r. s = s\<lparr>received := r\<rparr>" ..
  then show ?case by (simp add: values_of_def map_filter_simps)
next
  case (Cons m ms)
  let ?bs = "buckets s"
  from Cons.prems have w: "admitted lay s k m" and ws: "list_all (admitted lay s k) ms"
    by simp_all
  from putmetric_admitted [OF w, of atof]
  obtain tok where tok: "after_blank m = Some tok" and k: "k < length ?bs"
    and put: "aggregator_putmetric lay atof s m
       = Inr ([], s\<lparr>received := incr_size (received s),
            buckets := ?bs[k := bucket_add (?bs ! k) (atof tok)]\<rparr>)"
    by blast
  let ?s1 = "s\<lparr>received := incr_size (received s),
            buckets := ?bs[k := bucket_add (?bs ! k) (atof tok)]\<rparr>"
  have same: "admitted lay ?s1 k = admitted lay s k"
    using k by (simp add: admitted_def fun_eq_iff slot_of_frame)
  have ws1: "list_all (admitted lay ?s1 k) ms" using ws same by simp
  from Cons.IH [OF ws1]
  obtain r where run: "putmetrics lay atof ?s1 ms
     = Inr (?s1\<lparr>received := r,
          buckets := (buckets ?s1)[k := foldl bucket_add (buckets ?s1 ! k) (values_of atof ms)]\<rparr>)"
    and len: "length (values_of atof ms) = length ms"
    by blast
  have vals: "values_of atof (m # ms) = atof tok # values_of atof ms"
    using tok by (simp add: values_of_def map_filter_simps)
  have "putmetrics lay atof s (m # ms)
     = Inr (s\<lparr>received := r,
          buckets := ?bs[k := foldl bucket_add (?bs ! k) (values_of atof (m # ms))]\<rparr>)"
    using put run vals k by simp
  moreover have "length (values_of atof (m # ms)) = length (m # ms)"
    using len vals by simp
  ultimately show ?case by blast
qed

text \<open>
  What the update computes for any type of values, \<^verbatim>\<open>double\<close> included: the count, the
  sum taken with \<open>+\<close> in the order of arrival, and the running maximum and minimum
  taken with \<open><\<close>.
\<close>

lemma bucket_add_folds:
  fixes b :: "'v::{plus,ord} bucket"
  assumes "0 < cnt b" "cnt b + int (length vs) < 2 ^ 64"
  shows "foldl bucket_add b vs
     = b\<lparr>cnt := cnt b + int (length vs), sum_f := foldl (+) (sum_f b) vs,
         max_f := foldl (\<lambda>a x. if a < x then x else a) (max_f b) vs,
         min_f := foldl (\<lambda>a x. if x < a then x else a) (min_f b) vs\<rparr>"
  using assms
proof (induction vs arbitrary: b)
  case Nil
  then show ?case by simp
next
  case (Cons v vs)
  let ?b1 = "bucket_add b v"
  have one: "?b1 = b\<lparr>cnt := cnt b + 1, sum_f := sum_f b + v,
      max_f := (if max_f b < v then v else max_f b),
      min_f := (if v < min_f b then v else min_f b)\<rparr>"
    using Cons.prems by (auto simp: bucket_add_def Let_def incr_size_def)
  have "foldl bucket_add ?b1 vs
     = ?b1\<lparr>cnt := cnt ?b1 + int (length vs), sum_f := foldl (+) (sum_f ?b1) vs,
         max_f := foldl (\<lambda>a x. if a < x then x else a) (max_f ?b1) vs,
         min_f := foldl (\<lambda>a x. if x < a then x else a) (min_f ?b1) vs\<rparr>"
    using Cons.prems by (intro Cons.IH) (simp_all add: one)
  then show ?case by (simp add: one)
qed

lemma bucket_add_fold_first:
  fixes b :: "'v::{plus,ord} bucket"
  assumes "cnt b = 0" "int (length (v # vs)) < 2 ^ 64"
  shows "foldl bucket_add b (v # vs)
     = b\<lparr>cnt := int (length (v # vs)), sum_f := foldl (+) v vs,
         max_f := foldl (\<lambda>a x. if a < x then x else a) v vs,
         min_f := foldl (\<lambda>a x. if x < a then x else a) v vs\<rparr>"
proof -
  let ?b1 = "b\<lparr>cnt := 1, sum_f := v, max_f := v, min_f := v\<rparr>"
  have "foldl bucket_add ?b1 vs
     = ?b1\<lparr>cnt := cnt ?b1 + int (length vs), sum_f := foldl (+) (sum_f ?b1) vs,
         max_f := foldl (\<lambda>a x. if a < x then x else a) (max_f ?b1) vs,
         min_f := foldl (\<lambda>a x. if x < a then x else a) (min_f ?b1) vs\<rparr>"
    using assms(2) by (intro bucket_add_folds) simp_all
  then show ?thesis using assms(1) by (simp add: bucket_add_first)
qed

lemma putmetrics_folds:
  fixes s :: "'v::{plus,ord} aggregator"
  assumes "cnt (buckets s ! k) = 0" and "ms \<noteq> []" and "int (length ms) < 2 ^ 64"
    and "list_all (admitted lay s k) ms"
  shows "\<exists>r v vs. values_of atof ms = v # vs \<and> length (v # vs) = length ms \<and>
     k < length (buckets s) \<and>
     putmetrics lay atof s ms
       = Inr (s\<lparr>received := r,
            buckets := (buckets s)[k := (buckets s ! k)
              \<lparr>cnt := int (length ms), sum_f := foldl (+) v vs,
               max_f := foldl (\<lambda>a x. if a < x then x else a) v vs,
               min_f := foldl (\<lambda>a x. if x < a then x else a) v vs\<rparr>]\<rparr>)"
proof -
  let ?vs = "values_of atof ms"
  from putmetrics_admitted [OF assms(4), of atof]
  obtain r where run: "putmetrics lay atof s ms
     = Inr (s\<lparr>received := r,
          buckets := (buckets s)[k := foldl bucket_add (buckets s ! k) ?vs]\<rparr>)"
    and len: "length ?vs = length ms"
    by blast
  from len assms(2) obtain v vs where vs: "?vs = v # vs" by (cases ?vs) auto
  from assms(2,4) obtain m0 where "admitted lay s k m0" by (cases ms) auto
  from putmetric_admitted [OF this, of atof] have k: "k < length (buckets s)" by blast
  have "foldl bucket_add (buckets s ! k) (v # vs)
     = (buckets s ! k)\<lparr>cnt := int (length (v # vs)), sum_f := foldl (+) v vs,
         max_f := foldl (\<lambda>a x. if a < x then x else a) v vs,
         min_f := foldl (\<lambda>a x. if x < a then x else a) v vs\<rparr>"
    using assms(1,3) len vs by (intro bucket_add_fold_first) simp_all
  with run vs len k show ?thesis by (intro exI [of _ r] exI [of _ v] exI [of _ vs]) simp
qed

text \<open>
  In arithmetic without rounding and without NaN (a linear order with an associative
  addition) the sum taken in the order of arrival is the sum of the values, and the
  running maximum and minimum are the greatest and the least of them.
\<close>

lemma foldl_plus_sum_list:
  fixes v :: "'v::monoid_add"
  shows "foldl (+) v vs = sum_list (v # vs)"
proof (induction vs arbitrary: v)
  case Nil
  then show ?case by simp
next
  case (Cons x xs)
  then show ?case by (simp add: add.assoc)
qed

lemma foldl_less_Max:
  fixes v :: "'v::linorder"
  shows "foldl (\<lambda>a x. if a < x then x else a) v vs = Max (set (v # vs))"
proof (induction vs arbitrary: v)
  case Nil
  then show ?case by simp
next
  case (Cons x xs)
  have "(if v < x then x else v) = max v x" by (auto simp: max_def)
  moreover have "Max (set (max v x # xs)) = Max (set (v # x # xs))"
    by (cases "xs = []") (simp_all add: max.assoc)
  ultimately show ?case using Cons.IH [of "max v x"] by simp
qed

lemma foldl_less_Min:
  fixes v :: "'v::linorder"
  shows "foldl (\<lambda>a x. if x < a then x else a) v vs = Min (set (v # vs))"
proof (induction vs arbitrary: v)
  case Nil
  then show ?case by simp
next
  case (Cons x xs)
  have "(if x < v then x else v) = min v x" by (auto simp: min_def)
  moreover have "Min (set (min v x # xs)) = Min (set (v # x # xs))"
    by (cases "xs = []") (simp_all add: min.assoc)
  ultimately show ?case using Cons.IH [of "min v x"] by simp
qed

text \<open>
  C2. The claim: for every sequence of samples admitted into the same bucket, the
  bucket's count is the number of samples, its sum the arithmetic sum of their values,
  its maximum and minimum the greatest and the least of their values, and the lines
  printed for the bucket report these, the average being the sum divided by the count.
  The values are \<^verbatim>\<open>double\<close>s: \<^verbatim>\<open>bucket->sum += val\<close> rounds at every addition, and
  \<^verbatim>\<open>bucket->max < val\<close> and \<^verbatim>\<open>bucket->min > val\<close> are false whenever one side is a
  NaN, so the maximum and minimum kept depend on the order of arrival. The claim as
  amended: for every sequence of fewer than \<open>2 ^ 64\<close> samples admitted into the same
  bucket, empty before, the bucket's count is the number of the samples; its sum is the
  result of adding their values with the addition of \<^verbatim>\<open>double\<close> in the order of
  arrival; its maximum and minimum are the running maximum and minimum, where a value
  replaces the maximum kept when the maximum is \<open><\<close> the value, and the minimum kept
  when the value is \<open><\<close> the minimum; and when the window of the bucket has expired, the
  sweeper prints for it, after the lines of the windows before it, one line for each
  statistic asked for, stamped with the end of the window, with these fields as the
  values of SUM, COUNT, MAX and MIN, and the sum divided by \<^verbatim>\<open>(double)\<close> count for AVG.

  The samples are lines that \<^verbatim>\<open>aggregator_putmetric\<close> stores in cell \<open>k\<close>
  (\<open>admitted\<close>: the tests of that function), put one after the other into an aggregator
  whose bucket \<open>k\<close> is empty. The part on the sweeper is for an aggregator whose ring, of
  at least two buckets, satisfies the invariant and whose times stay within
  \<^verbatim>\<open>long long\<close>, as in C7, and for a run of the loop that follows the samples at a time
  \<open>now\<close> with \<^verbatim>\<open>start + interval < now - expire\<close> for the bucket. The statement holds
  for any type of values with \<open>+\<close>, \<open><\<close> and \<open>/\<close>, whatever these operations are, and so
  for \<^verbatim>\<open>double\<close>. In a ring that satisfies the invariant the lines whose number read
  after the first blank lies in the window of bucket \<open>k\<close> are admitted into it
  (\<open>putmetric_read_in_window\<close>).
\<close>

theorem bucket_statistics:
  fixes s :: "'v::{plus,ord,inverse} aggregator"
  shows
  "(cnt (buckets s ! k) = 0 \<and> ms \<noteq> [] \<and> int (length ms) < 2 ^ 64 \<and>
    list_all (admitted lay s k) ms \<longrightarrow>
      (\<exists>s' v vs. putmetrics lay atof s ms = Inr s' \<and>
         values_of atof ms = v # vs \<and> length (v # vs) = length ms \<and>
         buckets s' ! k = (buckets s ! k)
           \<lparr>cnt := int (length ms), sum_f := foldl (+) v vs,
            max_f := foldl (\<lambda>a x. if a < x then x else a) v vs,
            min_f := foldl (\<lambda>a x. if x < a then x else a) v vs\<rparr>)) \<and>
   (cnt (buckets s ! k) = 0 \<and> ms \<noteq> [] \<and> int (length ms) < 2 ^ 64 \<and>
    list_all (admitted lay s k) ms \<and>
    wf_layout lay \<and> wf_aggregator lay s \<and> ring_inv s \<and> 2 \<le> bucketcnt s \<and>
    in_range c_llong now \<and> in_range c_llong (now - expire s) \<and>
    now - expire s + bucketcnt s * interval s < 2 ^ 63 \<and>
    start (buckets s ! k) + interval s < now - expire s \<longrightarrow>
      (\<exists>s' v vs pre rest t. putmetrics lay atof s ms = Inr s' \<and>
         values_of atof ms = v # vs \<and>
         expire_windows lay dbl now s' []
           = Some (Inr (pre @
               map (emit dbl (start (buckets s ! k) + interval s) (buckets s' ! k)) (computes s)
               @ rest, t)) \<and>
         length pre = k * length (computes s) \<and>
         emit dbl (start (buckets s ! k) + interval s) (buckets s' ! k)
             \<lparr>type_c = SUM_c, metric_c = m\<rparr>
           = \<lparr>l_metric = m, l_value = Dbl (foldl (+) v vs),
              l_stamp = start (buckets s ! k) + interval s\<rparr> \<and>
         emit dbl (start (buckets s ! k) + interval s) (buckets s' ! k)
             \<lparr>type_c = CNT_c, metric_c = m\<rparr>
           = \<lparr>l_metric = m, l_value = Size (int (length ms)),
              l_stamp = start (buckets s ! k) + interval s\<rparr> \<and>
         emit dbl (start (buckets s ! k) + interval s) (buckets s' ! k)
             \<lparr>type_c = MAX_c, metric_c = m\<rparr>
           = \<lparr>l_metric = m, l_value = Dbl (foldl (\<lambda>a x. if a < x then x else a) v vs),
              l_stamp = start (buckets s ! k) + interval s\<rparr> \<and>
         emit dbl (start (buckets s ! k) + interval s) (buckets s' ! k)
             \<lparr>type_c = MIN_c, metric_c = m\<rparr>
           = \<lparr>l_metric = m, l_value = Dbl (foldl (\<lambda>a x. if x < a then x else a) v vs),
              l_stamp = start (buckets s ! k) + interval s\<rparr> \<and>
         emit dbl (start (buckets s ! k) + interval s) (buckets s' ! k)
             \<lparr>type_c = AVG_c, metric_c = m\<rparr>
           = \<lparr>l_metric = m, l_value = Dbl (foldl (+) v vs / dbl (int (length ms))),
              l_stamp = start (buckets s ! k) + interval s\<rparr>))"
proof (intro conjI impI)
  assume h: "cnt (buckets s ! k) = 0 \<and> ms \<noteq> [] \<and> int (length ms) < 2 ^ 64 \<and>
    list_all (admitted lay s k) ms"
  then have "\<exists>r v vs. values_of atof ms = v # vs \<and> length (v # vs) = length ms \<and>
     k < length (buckets s) \<and>
     putmetrics lay atof s ms
       = Inr (s\<lparr>received := r,
            buckets := (buckets s)[k := (buckets s ! k)
              \<lparr>cnt := int (length ms), sum_f := foldl (+) v vs,
               max_f := foldl (\<lambda>a x. if a < x then x else a) v vs,
               min_f := foldl (\<lambda>a x. if x < a then x else a) v vs\<rparr>]\<rparr>)"
    by (intro putmetrics_folds) simp_all
  then obtain r v vs where vs: "values_of atof ms = v # vs" "length (v # vs) = length ms"
    and k: "k < length (buckets s)"
    and run: "putmetrics lay atof s ms
       = Inr (s\<lparr>received := r,
            buckets := (buckets s)[k := (buckets s ! k)
              \<lparr>cnt := int (length ms), sum_f := foldl (+) v vs,
               max_f := foldl (\<lambda>a x. if a < x then x else a) v vs,
               min_f := foldl (\<lambda>a x. if x < a then x else a) v vs\<rparr>]\<rparr>)"
    by blast
  show "\<exists>s' v vs. putmetrics lay atof s ms = Inr s' \<and>
         values_of atof ms = v # vs \<and> length (v # vs) = length ms \<and>
         buckets s' ! k = (buckets s ! k)
           \<lparr>cnt := int (length ms), sum_f := foldl (+) v vs,
            max_f := foldl (\<lambda>a x. if a < x then x else a) v vs,
            min_f := foldl (\<lambda>a x. if x < a then x else a) v vs\<rparr>"
    using vs k run by (intro exI [of _ "s\<lparr>received := r,
            buckets := (buckets s)[k := (buckets s ! k)
              \<lparr>cnt := int (length ms), sum_f := foldl (+) v vs,
               max_f := foldl (\<lambda>a x. if a < x then x else a) v vs,
               min_f := foldl (\<lambda>a x. if x < a then x else a) v vs\<rparr>]\<rparr>"]
        exI [of _ v] exI [of _ vs]) simp
next
  assume h: "cnt (buckets s ! k) = 0 \<and> ms \<noteq> [] \<and> int (length ms) < 2 ^ 64 \<and>
    list_all (admitted lay s k) ms \<and>
    wf_layout lay \<and> wf_aggregator lay s \<and> ring_inv s \<and> 2 \<le> bucketcnt s \<and>
    in_range c_llong now \<and> in_range c_llong (now - expire s) \<and>
    now - expire s + bucketcnt s * interval s < 2 ^ 63 \<and>
    start (buckets s ! k) + interval s < now - expire s"
  then have "\<exists>r v vs. values_of atof ms = v # vs \<and> length (v # vs) = length ms \<and>
     k < length (buckets s) \<and>
     putmetrics lay atof s ms
       = Inr (s\<lparr>received := r,
            buckets := (buckets s)[k := (buckets s ! k)
              \<lparr>cnt := int (length ms), sum_f := foldl (+) v vs,
               max_f := foldl (\<lambda>a x. if a < x then x else a) v vs,
               min_f := foldl (\<lambda>a x. if x < a then x else a) v vs\<rparr>]\<rparr>)"
    by (intro putmetrics_folds) simp_all
  then obtain r v vs where vs: "values_of atof ms = v # vs"
    and k: "k < length (buckets s)"
    and run: "putmetrics lay atof s ms
       = Inr (s\<lparr>received := r,
            buckets := (buckets s)[k := (buckets s ! k)
              \<lparr>cnt := int (length ms), sum_f := foldl (+) v vs,
               max_f := foldl (\<lambda>a x. if a < x then x else a) v vs,
               min_f := foldl (\<lambda>a x. if x < a then x else a) v vs\<rparr>]\<rparr>)"
    by blast
  let ?B = "(buckets s ! k)
              \<lparr>cnt := int (length ms), sum_f := foldl (+) v vs,
               max_f := foldl (\<lambda>a x. if a < x then x else a) v vs,
               min_f := foldl (\<lambda>a x. if x < a then x else a) v vs\<rparr>"
  let ?s' = "s\<lparr>received := r, buckets := (buckets s)[k := ?B]\<rparr>"
  have starts: "map start (buckets ?s') = map start (buckets s)"
    using k by (simp add: map_update list_update_same_conv)
  have wf': "wf_aggregator lay ?s'"
    using h starts by (simp add: wf_aggregator_def del: map_update)
  have ring': "ring_inv ?s'"
    using h starts by (simp add: ring_inv_def del: map_update)
  have cell: "buckets ?s' ! k = ?B" using k by simp
  have "\<exists>pre rest t. expire_windows lay dbl now ?s' []
        = Some (Inr ([] @ pre @
            map (emit dbl (start (buckets ?s' ! k) + interval ?s') (buckets ?s' ! k)) (computes ?s')
            @ rest, t)) \<and>
       length pre = k * length (computes ?s')"
    using h wf' ring' k by (intro expire_windows_reaches) simp_all
  then obtain pre rest t where sweep: "expire_windows lay dbl now ?s' []
        = Some (Inr (pre @
            map (emit dbl (start (buckets s ! k) + interval s) (buckets ?s' ! k)) (computes s)
            @ rest, t))"
    and lp: "length pre = k * length (computes s)"
    using k by auto
  show "\<exists>s' v vs pre rest t. putmetrics lay atof s ms = Inr s' \<and>
         values_of atof ms = v # vs \<and>
         expire_windows lay dbl now s' []
           = Some (Inr (pre @
               map (emit dbl (start (buckets s ! k) + interval s) (buckets s' ! k)) (computes s)
               @ rest, t)) \<and>
         length pre = k * length (computes s) \<and>
         emit dbl (start (buckets s ! k) + interval s) (buckets s' ! k)
             \<lparr>type_c = SUM_c, metric_c = m\<rparr>
           = \<lparr>l_metric = m, l_value = Dbl (foldl (+) v vs),
              l_stamp = start (buckets s ! k) + interval s\<rparr> \<and>
         emit dbl (start (buckets s ! k) + interval s) (buckets s' ! k)
             \<lparr>type_c = CNT_c, metric_c = m\<rparr>
           = \<lparr>l_metric = m, l_value = Size (int (length ms)),
              l_stamp = start (buckets s ! k) + interval s\<rparr> \<and>
         emit dbl (start (buckets s ! k) + interval s) (buckets s' ! k)
             \<lparr>type_c = MAX_c, metric_c = m\<rparr>
           = \<lparr>l_metric = m, l_value = Dbl (foldl (\<lambda>a x. if a < x then x else a) v vs),
              l_stamp = start (buckets s ! k) + interval s\<rparr> \<and>
         emit dbl (start (buckets s ! k) + interval s) (buckets s' ! k)
             \<lparr>type_c = MIN_c, metric_c = m\<rparr>
           = \<lparr>l_metric = m, l_value = Dbl (foldl (\<lambda>a x. if x < a then x else a) v vs),
              l_stamp = start (buckets s ! k) + interval s\<rparr> \<and>
         emit dbl (start (buckets s ! k) + interval s) (buckets s' ! k)
             \<lparr>type_c = AVG_c, metric_c = m\<rparr>
           = \<lparr>l_metric = m, l_value = Dbl (foldl (+) v vs / dbl (int (length ms))),
              l_stamp = start (buckets s ! k) + interval s\<rparr>"
    apply (rule exI [of _ ?s'], rule exI [of _ v], rule exI [of _ vs],
        rule exI [of _ pre], rule exI [of _ rest], rule exI [of _ t])
    apply (simp only: run vs sweep lp cell)
    apply (simp add: emit_def)
    done
qed

text \<open>
  Three samples of values 995, 991 and 999 in the oldest window of the aggregator that
  \<^verbatim>\<open>aggregator_new(10, 20)\<close> builds at time 1000, and the sweeper at time 1021, which
  closes this window and no other.
\<close>

theorem bucket_statistics_witness:
  "cnt (buckets agg_d ! 0) = 0 \<and> three_lines \<noteq> [] \<and> int (length three_lines) < 2 ^ 64 \<and>
   list_all (admitted layout_int agg_d 0) three_lines \<and>
   wf_layout layout_int \<and> wf_aggregator layout_int agg_d \<and> ring_inv agg_d \<and>
   2 \<le> bucketcnt agg_d \<and> in_range c_llong 1021 \<and> in_range c_llong (1021 - expire agg_d) \<and>
   1021 - expire agg_d + bucketcnt agg_d * interval agg_d < 2 ^ 63 \<and>
   start (buckets agg_d ! 0) + interval agg_d < 1021 - expire agg_d \<and>
   values_of atof_dec three_lines = [Num 995, Num 991, Num 999] \<and>
   (\<exists>s'. putmetrics layout_int atof_dec agg_d three_lines = Inr s' \<and>
      buckets s' ! 0
        = \<lparr>start = 990, cnt = 3, sum_f = Num 2985, max_f = Num 999, min_f = Num 991\<rparr>) \<and>
   (\<exists>s' pre rest t. putmetrics layout_int atof_dec agg_d three_lines = Inr s' \<and>
      expire_windows layout_int double_of_int 1021 s' []
        = Some (Inr (pre @ map (emit double_of_int 1000 (buckets s' ! 0)) all_computes @ rest, t)) \<and>
      length pre = 0 \<and>
      emit double_of_int 1000 (buckets s' ! 0) \<lparr>type_c = SUM_c, metric_c = ''x''\<rparr>
        = \<lparr>l_metric = ''x'', l_value = Dbl (Num 2985), l_stamp = 1000\<rparr> \<and>
      emit double_of_int 1000 (buckets s' ! 0) \<lparr>type_c = AVG_c, metric_c = ''x''\<rparr>
        = \<lparr>l_metric = ''x'', l_value = Dbl (Num 995), l_stamp = 1000\<rparr>) \<and>
   map_option (map_sum id fst)
       (expire_windows layout_int double_of_int 1021
          (agg_d\<lparr>received := 3,
             buckets := (buckets agg_d)
               [0 := \<lparr>start = 990, cnt = 3, sum_f = Num 2985, max_f = Num 999,
                      min_f = Num 991\<rparr>]\<rparr>) [])
     = Some (Inr [\<lparr>l_metric = ''sum'', l_value = Dbl (Num 2985), l_stamp = 1000\<rparr>,
                  \<lparr>l_metric = ''cnt'', l_value = Size 3, l_stamp = 1000\<rparr>,
                  \<lparr>l_metric = ''max'', l_value = Dbl (Num 999), l_stamp = 1000\<rparr>,
                  \<lparr>l_metric = ''min'', l_value = Dbl (Num 991), l_stamp = 1000\<rparr>,
                  \<lparr>l_metric = ''avg'', l_value = Dbl (Num 995), l_stamp = 1000\<rparr>])"
proof -
  have h: "cnt (buckets agg_d ! 0) = 0" "three_lines \<noteq> []" "int (length three_lines) < 2 ^ 64"
    "list_all (admitted layout_int agg_d 0) three_lines"
    "wf_layout layout_int" "wf_aggregator layout_int agg_d" "ring_inv agg_d"
    "2 \<le> bucketcnt agg_d" "in_range c_llong 1021" "in_range c_llong (1021 - expire agg_d)"
    "1021 - expire agg_d + bucketcnt agg_d * interval agg_d < 2 ^ 63"
    "start (buckets agg_d ! 0) + interval agg_d < 1021 - expire agg_d"
    by code_simp+
  have vals: "values_of atof_dec three_lines = [Num 995, Num 991, Num 999]"
    by code_simp
  have n: "int (length three_lines) = 3" by (simp add: three_lines_def)
  have f: "foldl (+) (Num 995) [Num 991, Num 999] = Num 2985"
    "foldl (\<lambda>a x. if a < x then x else a) (Num 995) [Num 991, Num 999] = Num 999"
    "foldl (\<lambda>a x. if x < a then x else a) (Num 995) [Num 991, Num 999] = Num 991"
    "Num 2985 / double_of_int 3 = Num 995"
    by code_simp+
  have c: "start (buckets agg_d ! 0) + interval agg_d = 1000" "computes agg_d = all_computes"
    by code_simp+
  have c0: "buckets agg_d ! 0 = \<lparr>start = 990, cnt = 0, sum_f = Num 0, max_f = Num 0, min_f = Num 0\<rparr>"
    by code_simp+
  have run: "map_option (map_sum id fst)
       (expire_windows layout_int double_of_int 1021
          (agg_d\<lparr>received := 3,
             buckets := (buckets agg_d)
               [0 := \<lparr>start = 990, cnt = 3, sum_f = Num 2985, max_f = Num 999,
                      min_f = Num 991\<rparr>]\<rparr>) [])
     = Some (Inr [\<lparr>l_metric = ''sum'', l_value = Dbl (Num 2985), l_stamp = 1000\<rparr>,
                  \<lparr>l_metric = ''cnt'', l_value = Size 3, l_stamp = 1000\<rparr>,
                  \<lparr>l_metric = ''max'', l_value = Dbl (Num 999), l_stamp = 1000\<rparr>,
                  \<lparr>l_metric = ''min'', l_value = Dbl (Num 991), l_stamp = 1000\<rparr>,
                  \<lparr>l_metric = ''avg'', l_value = Dbl (Num 995), l_stamp = 1000\<rparr>])"
    by code_simp
  have hyp1: "cnt (buckets agg_d ! 0) = 0 \<and> three_lines \<noteq> [] \<and>
      int (length three_lines) < 2 ^ 64 \<and> list_all (admitted layout_int agg_d 0) three_lines"
    using h by blast
  have hyp2: "cnt (buckets agg_d ! 0) = 0 \<and> three_lines \<noteq> [] \<and>
      int (length three_lines) < 2 ^ 64 \<and> list_all (admitted layout_int agg_d 0) three_lines \<and>
      wf_layout layout_int \<and> wf_aggregator layout_int agg_d \<and> ring_inv agg_d \<and>
      2 \<le> bucketcnt agg_d \<and> in_range c_llong 1021 \<and> in_range c_llong (1021 - expire agg_d) \<and>
      1021 - expire agg_d + bucketcnt agg_d * interval agg_d < 2 ^ 63 \<and>
      start (buckets agg_d ! 0) + interval agg_d < 1021 - expire agg_d"
    using h by blast
  note inst = bucket_statistics
    [where s = agg_d and k = 0 and ms = three_lines and lay = layout_int and atof = atof_dec
       and dbl = double_of_int and now = 1021 and m = "''x''"]
  from inst [THEN conjunct1, THEN mp, OF hyp1]
  obtain s1 v1 vs1 where q: "putmetrics layout_int atof_dec agg_d three_lines = Inr s1"
    "values_of atof_dec three_lines = v1 # vs1"
    "buckets s1 ! 0 = (buckets agg_d ! 0)
           \<lparr>cnt := int (length three_lines), sum_f := foldl (+) v1 vs1,
            max_f := foldl (\<lambda>a x. if a < x then x else a) v1 vs1,
            min_f := foldl (\<lambda>a x. if x < a then x else a) v1 vs1\<rparr>"
    by blast
  from q(2) vals have v1: "v1 = Num 995" "vs1 = [Num 991, Num 999]" by simp_all
  have "buckets s1 ! 0
        = \<lparr>start = 990, cnt = 3, sum_f = Num 2985, max_f = Num 999, min_f = Num 991\<rparr>"
    using q(3) by (simp only: v1 c0 n f) simp
  with q(1) have a: "\<exists>s'. putmetrics layout_int atof_dec agg_d three_lines = Inr s' \<and>
      buckets s' ! 0
        = \<lparr>start = 990, cnt = 3, sum_f = Num 2985, max_f = Num 999, min_f = Num 991\<rparr>"
    by blast
  from inst [THEN conjunct2, THEN mp, OF hyp2]
  obtain s2 v2 vs2 pre rest t where p:
      "putmetrics layout_int atof_dec agg_d three_lines = Inr s2"
      "values_of atof_dec three_lines = v2 # vs2"
      "expire_windows layout_int double_of_int 1021 s2 []
        = Some (Inr (pre @
            map (emit double_of_int (start (buckets agg_d ! 0) + interval agg_d) (buckets s2 ! 0))
              (computes agg_d) @ rest, t))"
      "length pre = 0 * length (computes agg_d)"
      "emit double_of_int (start (buckets agg_d ! 0) + interval agg_d) (buckets s2 ! 0)
             \<lparr>type_c = SUM_c, metric_c = ''x''\<rparr>
           = \<lparr>l_metric = ''x'', l_value = Dbl (foldl (+) v2 vs2),
              l_stamp = start (buckets agg_d ! 0) + interval agg_d\<rparr>"
      "emit double_of_int (start (buckets agg_d ! 0) + interval agg_d) (buckets s2 ! 0)
             \<lparr>type_c = AVG_c, metric_c = ''x''\<rparr>
           = \<lparr>l_metric = ''x'',
              l_value = Dbl (foldl (+) v2 vs2 / double_of_int (int (length three_lines))),
              l_stamp = start (buckets agg_d ! 0) + interval agg_d\<rparr>"
    by blast
  from p(2) vals have v2: "v2 = Num 995" "vs2 = [Num 991, Num 999]" by simp_all
  have p3: "expire_windows layout_int double_of_int 1021 s2 []
        = Some (Inr (pre @ map (emit double_of_int 1000 (buckets s2 ! 0)) all_computes @ rest, t))"
    using p(3) by (simp only: c)
  have p4: "length pre = 0" using p(4) by simp
  have p5: "emit double_of_int 1000 (buckets s2 ! 0) \<lparr>type_c = SUM_c, metric_c = ''x''\<rparr>
        = \<lparr>l_metric = ''x'', l_value = Dbl (Num 2985), l_stamp = 1000\<rparr>"
    using p(5) by (simp only: v2 c f)
  have p6: "emit double_of_int 1000 (buckets s2 ! 0) \<lparr>type_c = AVG_c, metric_c = ''x''\<rparr>
        = \<lparr>l_metric = ''x'', l_value = Dbl (Num 995), l_stamp = 1000\<rparr>"
    using p(6) by (simp only: v2 c f n)
  from p(1) p3 p4 p5 p6
  have b: "\<exists>s' pre rest t. putmetrics layout_int atof_dec agg_d three_lines = Inr s' \<and>
      expire_windows layout_int double_of_int 1021 s' []
        = Some (Inr (pre @ map (emit double_of_int 1000 (buckets s' ! 0)) all_computes @ rest, t)) \<and>
      length pre = 0 \<and>
      emit double_of_int 1000 (buckets s' ! 0) \<lparr>type_c = SUM_c, metric_c = ''x''\<rparr>
        = \<lparr>l_metric = ''x'', l_value = Dbl (Num 2985), l_stamp = 1000\<rparr> \<and>
      emit double_of_int 1000 (buckets s' ! 0) \<lparr>type_c = AVG_c, metric_c = ''x''\<rparr>
        = \<lparr>l_metric = ''x'', l_value = Dbl (Num 995), l_stamp = 1000\<rparr>"
    by blast
  from h vals a b run show ?thesis by blast
qed

text \<open>
  The claim as stated fails on \<^verbatim>\<open>double\<close>. The samples of values \<open>995e14\<close> and 995,
  both of epoch 995, are admitted into the oldest window; their sum is
  99500000000000995, the sum kept and printed is 99500000000000992, the nearest
  \<^verbatim>\<open>double\<close>. And in the ring that \<^verbatim>\<open>aggregator_new(10, 20)\<close> builds at time 10, which
  starts at 0, the samples \<^verbatim>\<open>nan\<close> (of epoch 0) and 5 (of epoch 5) leave NaN as maximum
  and minimum when the NaN arrives first, and 5 as both when it arrives second: the
  same values, and no maximum or minimum of them can be both.
\<close>

theorem bucket_statistics_counterexample:
  "aggregator_new layout_int (env_d 1000) [] 10 20 = Inr [agg_d] \<and>
   list_all (admitted layout_int agg_d 0) [''m 995e14 995'' @ nl, ''m 995 995'' @ nl] \<and>
   values_of atof_dec [''m 995e14 995'' @ nl, ''m 995 995'' @ nl]
     = [Num 99500000000000000, Num 995] \<and>
   putmetrics layout_int atof_dec agg_d [''m 995e14 995'' @ nl, ''m 995 995'' @ nl]
     = Inr (agg_d\<lparr>received := 2,
          buckets := (buckets agg_d)
            [0 := \<lparr>start = 990, cnt = 2, sum_f = Num 99500000000000992,
                   max_f = Num 99500000000000000, min_f = Num 995\<rparr>]\<rparr>) \<and>
   (99500000000000000 + 995 :: rat) \<noteq> 99500000000000992 \<and>
   map_option (map_sum id (map l_value \<circ> fst))
       (expire_windows layout_int double_of_int 1021
          (agg_d\<lparr>received := 2,
             buckets := (buckets agg_d)
               [0 := \<lparr>start = 990, cnt = 2, sum_f = Num 99500000000000992,
                      max_f = Num 99500000000000000, min_f = Num 995\<rparr>]\<rparr>) [])
     = Some (Inr [Dbl (Num 99500000000000992), Size 2, Dbl (Num 99500000000000000),
                  Dbl (Num 995), Dbl (Num 49750000000000496)]) \<and>
   aggregator_new layout_int (env_d 10) [] 10 20 = Inr [agg_d0] \<and>
   list_all (admitted layout_int agg_d0 0) [''m nan 0'' @ nl, ''m 5 5'' @ nl] \<and>
   values_of atof_dec [''m nan 0'' @ nl, ''m 5 5'' @ nl] = [NaN, Num 5] \<and>
   values_of atof_dec [''m 5 5'' @ nl, ''m nan 0'' @ nl] = [Num 5, NaN] \<and>
   map_sum id (\<lambda>s. (max_f (buckets s ! 0), min_f (buckets s ! 0)))
       (putmetrics layout_int atof_dec agg_d0 [''m nan 0'' @ nl, ''m 5 5'' @ nl])
     = Inr (NaN, NaN) \<and>
   map_sum id (\<lambda>s. (max_f (buckets s ! 0), min_f (buckets s ! 0)))
       (putmetrics layout_int atof_dec agg_d0 [''m 5 5'' @ nl, ''m nan 0'' @ nl])
     = Inr (Num 5, Num 5)"
  by code_simp

section \<open>Samples beyond the ring whose slot fits int\<close>

text \<open>
  Where the quotient \<open>(epoch - start) div interval\<close> fits \<^verbatim>\<open>int\<close>, a sample beyond the
  ring is logged and counted as dropped, and nothing else changes.
\<close>

lemma putmetric_too_new:
  fixes s :: "'v::{plus,ord} aggregator"
  assumes lay: "wf_layout lay" and wf: "wf_aggregator lay s"
    and v: "strchr metric CHR '' '' = Some v"
    and b0: "nth_chk (buckets s) 0 = Inr b0"
    and lo: "start b0 \<le> atoll (tl v)" and rng: "in_range c_llong (atoll (tl v) - start b0)"
    and q: "bucketcnt s \<le> (atoll (tl v) - start b0) div interval s"
      "(atoll (tl v) - start b0) div interval s < 2 ^ 31"
  shows "aggregator_putmetric lay atof s metric
     = Inr ([''aggregator: dropping metric too far in the future: '' @ metric],
            s\<lparr>dropped := incr_size (dropped s)\<rparr>)"
proof -
  let ?e = "atoll (tl v) - start b0" and ?d = "interval s"
  have v2: "strchr v CHR '' '' = Some v" using v by (rule strchr_twice)
  have d: "0 < ?d" "in_range (interval_t lay) ?d" and cn: "in_range (bucketcnt_t lay) (bucketcnt s)"
    using wf by (simp_all add: wf_aggregator_def)
  have "b0 \<in> set (buckets s)"
    using b0 by (auto simp: nth_chk_def split: if_splits)
  then have r0: "in_range c_llong (start b0)"
    using wf by (auto simp: wf_aggregator_def list_all_iff)
  have types: "narrow (interval_t lay)" "narrow (bucketcnt_t lay)"
    using lay by (simp_all add: wf_layout_def)
  have e_nn: "0 \<le> ?e" using lo by simp
  have sub: "c_sub c_llong (atoll (tl v)) c_llong (start b0) = Inr ?e"
    using atoll_range [of "tl v"] r0 rng by (simp add: c_sub_llong)
  have dv: "c_div c_llong ?e (interval_t lay) ?d = Inr (?e div ?d)"
    using types(1) d(2) d(1) e_nn rng by (rule c_div_llong_narrow)
  have qn: "0 \<le> ?e div ?d" using e_nn d(1) by (simp add: pos_imp_zdiv_nonneg_iff)
  have slot: "conv c_int (?e div ?d) = ?e div ?d"
    using qn q(2) by (intro conv_id) (simp_all add: in_range_def c_int_def)
  have less: "\<not> c_less c_int (?e div ?d) (bucketcnt_t lay) (bucketcnt s)"
    using c_less_int_narrow [OF types(2) cn qn] q by simp
  show ?thesis
    using v v2 b0 sub e_nn dv slot less by (simp add: aggregator_putmetric_def Let_def)
qed

section \<open>The sweeper on a ring that is not sorted\<close>

text \<open>
  The ring of \<^verbatim>\<open>aggregator_new(2147483648, 0)\<close> starts at \<open>- 2147482648\<close>, 1000 and
  \<open>- 2147482648\<close>. At time 2147484649 the sweeper closes the window ending at
  2147484648 before the older window ending at 1000, and each of them twice.
\<close>

theorem sweeper_oldest_first_counterexample:
  "aggregator_new layout_int env_1000 [] 2147483648 0
     = Inr [agg_wrapped\<lparr>computes := all_computes\<rparr>] \<and>
   map_option (map_sum id (map l_stamp \<circ> fst))
       (expire_windows layout_int rat_of_int 2147484649 agg_wrapped [])
     = Some (Inr [1000, 2147484648, 1000, 2147484648]) \<and>
   \<not> sorted [1000, 2147484648, 1000, 2147484648 :: int]"
  by code_simp

end
